theory Spec2Isabelle
  imports Complex_Main "HOL-Library.Multiset" "HOL-Library.Sublist"
begin

section \<open>Data model of the App component (src/src/App.tsx)\<close>

text \<open>
  The component keeps its whole state in React state cells; every handler reads the
  cells of the current render and writes new values. The embedding is explicit state
  passing: a handler is a function from the state record to the updated state record.
\<close>

datatype SectionId = Home | About | Experience | Projects | Skills | Education | Training | Contact

record Section =
  sec_id :: SectionId
  sec_title :: string
  filePath :: string

record OpenTab =
  tab_id :: SectionId
  tab_title :: string

datatype group = LeftGroup | RightGroup

text \<open>The context menu state; the constant field \<open>type: 'tab'\<close> carries no information.\<close>

record ContextMenuState =
  menu_x :: real
  menu_y :: real
  menu_tabId :: SectionId
  menu_group :: group

text \<open>
  Of the fetched resume only \<open>basics\<close> is read by the \<open>home\<close> branch of the renderer,
  the one branch embedded below. The code reads every field through \<open>?.\<close> and \<open>??\<close>,
  so each may be missing.
\<close>

record Basics =
  basics_name :: "string option"
  basics_label :: "string option"
  basics_summary :: "string option"

record Resume =
  basics :: "Basics option"

record workspace =
  leftOpenTabs :: "OpenTab list"
  leftActiveTabId :: SectionId
  rightOpenTabs :: "OpenTab list"
  rightActiveTabId :: "SectionId option"
  query :: string
  contextMenu :: "ContextMenuState option"
  dragIndex :: "nat option"
  dragOverIndex :: "nat option"
  isResizing :: bool
  splitRatio :: real
  dragOffsetPx :: "real option"
  resume :: "Resume option"
  resumeLoading :: bool

definition SECTIONS :: "Section list" where
  "SECTIONS =
    [\<lparr>sec_id = Home, sec_title = ''Home'', filePath = ''home.md''\<rparr>,
     \<lparr>sec_id = About, sec_title = ''About'', filePath = ''about.md''\<rparr>,
     \<lparr>sec_id = Experience, sec_title = ''Experience'', filePath = ''experience.ts''\<rparr>,
     \<lparr>sec_id = Projects, sec_title = ''Projects'', filePath = ''projects.json''\<rparr>,
     \<lparr>sec_id = Skills, sec_title = ''Skills'', filePath = ''skills.ts''\<rparr>,
     \<lparr>sec_id = Education, sec_title = ''Education'', filePath = ''education.md''\<rparr>,
     \<lparr>sec_id = Training, sec_title = ''Training & Certs'', filePath = ''training.md''\<rparr>,
     \<lparr>sec_id = Contact, sec_title = ''Contact'', filePath = ''contact.tsx''\<rparr>]"

definition homeTab :: OpenTab where
  "homeTab = \<lparr>tab_id = Home, tab_title = ''Home''\<rparr>"

text \<open>The initial values of the state cells (the arguments of \<open>useState\<close>).\<close>

definition initial :: workspace where
  "initial =
    \<lparr>leftOpenTabs = [homeTab], leftActiveTabId = Home,
     rightOpenTabs = [], rightActiveTabId = None,
     query = [], contextMenu = None, dragIndex = None, dragOverIndex = None,
     isResizing = False, splitRatio = 0.5, dragOffsetPx = None,
     resume = None, resumeLoading = True\<rparr>"

section \<open>JavaScript array primitives\<close>

text \<open>\<open>Array.prototype.findIndex\<close>: the first index whose element satisfies \<open>P\<close>, else \<open>-1\<close>.\<close>

fun findIndex :: "('a \<Rightarrow> bool) \<Rightarrow> 'a list \<Rightarrow> int" where
  "findIndex P [] = - 1"
| "findIndex P (x # xs) =
     (if P x then 0 else (let i = findIndex P xs in if i = - 1 then - 1 else i + 1))"

text \<open>An index read \<open>xs[i]\<close>: \<open>undefined\<close> (here \<open>None\<close>) outside the array, also at \<open>-1\<close>.\<close>

definition elemAt :: "'a list \<Rightarrow> int \<Rightarrow> 'a option" where
  "elemAt xs i = (if 0 \<le> i \<and> i < int (length xs) then Some (xs ! nat i) else None)"

text \<open>\<open>a || b\<close> on values that are objects (always truthy) or \<open>undefined\<close>.\<close>

definition orElse :: "'a option \<Rightarrow> 'a option \<Rightarrow> 'a option" where
  "orElse a b = (case a of Some x \<Rightarrow> Some x | None \<Rightarrow> b)"

text \<open>
  \<open>xs.splice(start, deleteCount, ...items)\<close> for a non-negative \<open>start\<close>: the removed
  elements and the array afterwards. A \<open>start\<close> beyond the end acts as the length.
\<close>

definition splice :: "nat \<Rightarrow> nat \<Rightarrow> 'a list \<Rightarrow> 'a list \<Rightarrow> 'a list \<times> 'a list" where
  "splice start deleteCount items xs =
     (take deleteCount (drop start xs), take start xs @ items @ drop (start + deleteCount) xs)"

section \<open>Tab and pane workspace operations\<close>

text \<open>The cells a handler selects by its \<open>group\<close> argument.\<close>

definition openTabs :: "group \<Rightarrow> workspace \<Rightarrow> OpenTab list" where
  "openTabs g ws = (case g of LeftGroup \<Rightarrow> leftOpenTabs ws | RightGroup \<Rightarrow> rightOpenTabs ws)"

definition activeTabId :: "group \<Rightarrow> workspace \<Rightarrow> SectionId option" where
  "activeTabId g ws =
     (case g of LeftGroup \<Rightarrow> Some (leftActiveTabId ws) | RightGroup \<Rightarrow> rightActiveTabId ws)"

definition setOpen :: "group \<Rightarrow> OpenTab list \<Rightarrow> workspace \<Rightarrow> workspace" where
  "setOpen g tabs ws =
     (case g of LeftGroup \<Rightarrow> ws\<lparr>leftOpenTabs := tabs\<rparr> | RightGroup \<Rightarrow> ws\<lparr>rightOpenTabs := tabs\<rparr>)"

text \<open>
  The left cell has type \<open>SectionId\<close>; no handler passes \<open>null\<close> to its setter, and the
  model keeps the cell as it is in that case.
\<close>

definition setActive :: "group \<Rightarrow> SectionId option \<Rightarrow> workspace \<Rightarrow> workspace" where
  "setActive g a ws =
     (case g of
        LeftGroup \<Rightarrow> (case a of Some t \<Rightarrow> ws\<lparr>leftActiveTabId := t\<rparr> | None \<Rightarrow> ws)
      | RightGroup \<Rightarrow> ws\<lparr>rightActiveTabId := a\<rparr>)"

text \<open>\<open>openSection(section, target)\<close>.\<close>

definition openSection :: "Section \<Rightarrow> group \<Rightarrow> workspace \<Rightarrow> workspace" where
  "openSection section target ws =
     (let prev = openTabs target ws;
          tabs = (if \<exists>t \<in> set prev. tab_id t = sec_id section then prev
                  else prev @ [\<lparr>tab_id = sec_id section, tab_title = sec_title section\<rparr>])
      in setActive target (Some (sec_id section)) (setOpen target tabs ws))"

text \<open>
  \<open>closeTab(tabId, group)\<close>. The updater passed to \<open>setOpen\<close> calls \<open>setActive\<close> itself;
  both writes land in the same state.
\<close>

definition closeTab :: "SectionId \<Rightarrow> group \<Rightarrow> workspace \<Rightarrow> workspace" where
  "closeTab tabId g ws =
     (let prev = openTabs g ws;
          activeId = activeTabId g ws;
          idx = findIndex (\<lambda>t. tab_id t = tabId) prev
      in if idx = - 1 then ws
         else
           let next = filter (\<lambda>t. tab_id t \<noteq> tabId) prev;
               emptied = (case g of LeftGroup \<Rightarrow> [homeTab] | RightGroup \<Rightarrow> [])
           in if activeId = Some tabId then
                (case orElse (elemAt next (idx - 1)) (elemAt next idx) of
                   Some fallback \<Rightarrow>
                     setOpen g (if next \<noteq> [] then next else emptied)
                       (setActive g (Some (tab_id fallback)) ws)
                 | None \<Rightarrow>
                     setOpen g emptied
                       (setActive g
                          (case g of LeftGroup \<Rightarrow> Some Home
                           | RightGroup \<Rightarrow> map_option tab_id (elemAt next 0)) ws))
              else setOpen g (if next \<noteq> [] then next else emptied) ws)"

text \<open>\<open>closeOthers(tabId)\<close>, \<open>closeToRight(tabId)\<close> and \<open>closeAllTabs()\<close>: they have no group
  argument and write the left cells (\<open>closeAllTabs\<close> both groups).\<close>

definition closeOthers :: "SectionId \<Rightarrow> workspace \<Rightarrow> workspace" where
  "closeOthers tabId ws =
     ws\<lparr>leftOpenTabs := filter (\<lambda>t. tab_id t = tabId) (leftOpenTabs ws),
        leftActiveTabId := tabId\<rparr>"

definition closeToRight :: "SectionId \<Rightarrow> workspace \<Rightarrow> workspace" where
  "closeToRight tabId ws =
     (let prev = leftOpenTabs ws;
          idx = findIndex (\<lambda>t. tab_id t = tabId) prev;
          tabs = (if idx = - 1 then prev else take (nat (idx + 1)) prev)
      in ws\<lparr>leftOpenTabs := tabs, leftActiveTabId := tabId\<rparr>)"

definition closeAllTabs :: "workspace \<Rightarrow> workspace" where
  "closeAllTabs ws =
     ws\<lparr>leftOpenTabs := [homeTab], leftActiveTabId := Home,
        rightOpenTabs := [], rightActiveTabId := None\<rparr>"

text \<open>
  \<open>splitTab(tabId, direction, fromGroup)\<close>. The new active tab of the source group is
  computed from the cells of the current render: \<open>leftOpenTabs.find(t => t.id !== tabId)\<close>.
\<close>

definition splitTab :: "SectionId \<Rightarrow> group \<Rightarrow> group \<Rightarrow> workspace \<Rightarrow> workspace" where
  "splitTab tabId direction fromGroup ws =
     (case find (\<lambda>s. sec_id s = tabId) SECTIONS of
        None \<Rightarrow> ws
      | Some section \<Rightarrow>
          (case direction of
             RightGroup \<Rightarrow>
               (let prevR = rightOpenTabs ws;
                    ws1 = ws\<lparr>rightOpenTabs :=
                                (if \<exists>t \<in> set prevR. tab_id t = tabId then prevR
                                 else prevR @ [\<lparr>tab_id = tabId, tab_title = sec_title section\<rparr>]),
                             rightActiveTabId := Some tabId\<rparr>
                in if fromGroup = LeftGroup then
                     (let ws2 = ws1\<lparr>leftOpenTabs :=
                                       filter (\<lambda>t. tab_id t \<noteq> tabId) (leftOpenTabs ws)\<rparr>
                      in if leftActiveTabId ws = tabId then
                           ws2\<lparr>leftActiveTabId :=
                                  (case find (\<lambda>t. tab_id t \<noteq> tabId) (leftOpenTabs ws) of
                                     Some t \<Rightarrow> tab_id t | None \<Rightarrow> Home)\<rparr>
                         else ws2)
                   else ws1)
           | LeftGroup \<Rightarrow>
               (let prevL = leftOpenTabs ws;
                    ws1 = ws\<lparr>leftOpenTabs :=
                                (if \<exists>t \<in> set prevL. tab_id t = tabId then prevL
                                 else prevL @ [\<lparr>tab_id = tabId, tab_title = sec_title section\<rparr>]),
                             leftActiveTabId := tabId\<rparr>
                in if fromGroup = RightGroup then
                     (let ws2 = ws1\<lparr>rightOpenTabs :=
                                       filter (\<lambda>t. tab_id t \<noteq> tabId) (rightOpenTabs ws)\<rparr>
                      in if rightActiveTabId ws = Some tabId then
                           ws2\<lparr>rightActiveTabId :=
                                  map_option tab_id
                                    (find (\<lambda>t. tab_id t \<noteq> tabId) (rightOpenTabs ws))\<rparr>
                         else ws2)
                   else ws1)))"

text \<open>
  The tab bar: \<open>leftOpenTabs.map((tab, index) => ...)\<close> gives each rendered tab its handlers,
  so a click or a right click reaches the handler of the tab at a position of the list, and
  no handler exists for a position outside it. \<open>onClick\<close> is \<open>setLeftActiveTabId(tab.id)\<close>
  (\<open>setRightActiveTabId\<close> in the right group).
\<close>

definition tabClick :: "group \<Rightarrow> nat \<Rightarrow> workspace \<Rightarrow> workspace" where
  "tabClick g index ws =
     (case elemAt (openTabs g ws) (int index) of
        None \<Rightarrow> ws
      | Some tab \<Rightarrow> setActive g (Some (tab_id tab)) ws)"

definition tabContextMenu :: "group \<Rightarrow> nat \<Rightarrow> real \<Rightarrow> real \<Rightarrow> workspace \<Rightarrow> workspace" where
  "tabContextMenu g index x y ws =
     (case elemAt (openTabs g ws) (int index) of
        None \<Rightarrow> ws
      | Some tab \<Rightarrow>
          ws\<lparr>contextMenu :=
                Some \<lparr>menu_x = x, menu_y = y, menu_tabId = tab_id tab, menu_group = g\<rparr>\<rparr>)"

text \<open>
  The buttons of \<open>TabContextMenu\<close>, wired where the component renders it: each runs its
  action and then \<open>onClose\<close>. The two split buttons are rendered only under \<open>showSplit\<close>.
  \<open>closeOthers\<close> and \<open>closeToRight\<close> receive \<open>contextMenu.tabId\<close> alone; \<open>closeTab\<close> and
  \<open>splitTab\<close> receive \<open>contextMenu.group\<close> as well.
\<close>

datatype menuItem = Close | CloseOthers | CloseToTheRight | CloseAll | SplitLeft | SplitRight

definition showSplit :: "ContextMenuState \<Rightarrow> workspace \<Rightarrow> bool" where
  "showSplit m ws \<longleftrightarrow> 2 \<le> length (openTabs (menu_group m) ws)"

definition menuButton :: "menuItem \<Rightarrow> workspace \<Rightarrow> workspace" where
  "menuButton item ws =
     (case contextMenu ws of
        None \<Rightarrow> ws
      | Some m \<Rightarrow>
          (case item of
             Close \<Rightarrow> (closeTab (menu_tabId m) (menu_group m) ws)\<lparr>contextMenu := None\<rparr>
           | CloseOthers \<Rightarrow> (closeOthers (menu_tabId m) ws)\<lparr>contextMenu := None\<rparr>
           | CloseToTheRight \<Rightarrow> (closeToRight (menu_tabId m) ws)\<lparr>contextMenu := None\<rparr>
           | CloseAll \<Rightarrow> (closeAllTabs ws)\<lparr>contextMenu := None\<rparr>
           | SplitLeft \<Rightarrow>
               (if showSplit m ws
                then (splitTab (menu_tabId m) LeftGroup (menu_group m) ws)\<lparr>contextMenu := None\<rparr>
                else ws)
           | SplitRight \<Rightarrow>
               (if showSplit m ws
                then (splitTab (menu_tabId m) RightGroup (menu_group m) ws)\<lparr>contextMenu := None\<rparr>
                else ws)))"

section \<open>Drag reordering of the left group\<close>

definition handleTabDragStart :: "nat \<Rightarrow> workspace \<Rightarrow> workspace" where
  "handleTabDragStart index ws = ws\<lparr>dragIndex := Some index, dragOverIndex := Some index\<rparr>"

definition handleTabDragOver :: "nat \<Rightarrow> workspace \<Rightarrow> workspace" where
  "handleTabDragOver index ws =
     (if dragOverIndex ws \<noteq> Some index then ws\<lparr>dragOverIndex := Some index\<rparr> else ws)"

text \<open>
  \<open>handleTabDrop(index)\<close>. Indices are positions of rendered tabs, hence natural numbers,
  and \<open>index - 1\<close> is taken only when \<open>dragIndex < index\<close>. With \<open>dragIndex\<close> beyond the
  end of the list the first \<open>splice\<close> removes nothing and the second would insert
  \<open>undefined\<close>, an array that is no \<open>OpenTab\<close> list: the result is \<open>None\<close> there.
\<close>

definition handleTabDrop :: "nat \<Rightarrow> workspace \<Rightarrow> workspace option" where
  "handleTabDrop index ws =
     (case dragIndex ws of
        None \<Rightarrow> Some ws
      | Some d \<Rightarrow>
          if index = d then Some (ws\<lparr>dragIndex := None, dragOverIndex := None\<rparr>)
          else
            (case splice d 1 [] (leftOpenTabs ws) of
               ([], _) \<Rightarrow> None
             | (moved # _, next1) \<Rightarrow>
                 let insertIndex = (if d < index then index - 1 else index);
                     next2 = snd (splice insertIndex 0 [moved] next1)
                 in Some (ws\<lparr>leftOpenTabs := next2, dragIndex := None, dragOverIndex := None\<rparr>)))"

definition handleTabDragEnd :: "workspace \<Rightarrow> workspace" where
  "handleTabDragEnd ws = ws\<lparr>dragIndex := None, dragOverIndex := None\<rparr>"

section \<open>Splitter drag\<close>

text \<open>
  \<open>onMove\<close> of the resize effect. Pixel positions are JavaScript numbers and are taken as
  reals here; \<open>Math.min\<close> and \<open>Math.max\<close> are exact, and a container of width 0 (where
  the division gives no finite number) is outside every statement below.
\<close>

record DOMRect =
  rect_left :: real
  rect_width :: real

definition clampedX :: "real \<Rightarrow> real \<Rightarrow> real" where
  "clampedX rawX width = min (max rawX 100) (width - 100)"

definition onMove :: "real \<Rightarrow> DOMRect option \<Rightarrow> workspace \<Rightarrow> workspace" where
  "onMove clientX current ws =
     (case current of
        None \<Rightarrow> ws
      | Some rect \<Rightarrow>
          if \<not> isResizing ws then ws
          else
            let offset = (case dragOffsetPx ws of Some d \<Rightarrow> d | None \<Rightarrow> 0);
                rawX = clientX - rect_left rect - offset;
                ratio = clampedX rawX (rect_width rect) / rect_width rect
            in ws\<lparr>splitRatio := min (max ratio 0.2) 0.8\<rparr>)"

section \<open>Section catalog search\<close>

text \<open>
  In this section a string is a list of UTF-16 code units, and the type \<open>char\<close> holds
  the code units below 256, the characters of Basic Latin and Latin-1. On such strings
  \<open>toLowerCase\<close> maps the capital letters \<open>A\<close> to \<open>Z\<close> and the capital letters of Latin-1
  (U+00C0 to U+00DE without the multiplication sign U+00D7) to their small letters and
  leaves every other character as it is; and the white space that \<open>trim\<close> strips is tab,
  line feed, vertical tab, form feed, carriage return, space and the no-break space
  U+00A0. A string with a code unit from 256 on has no counterpart here.
\<close>

definition capitals :: string where
  "capitals = ''ABCDEFGHIJKLMNOPQRSTUVWXYZ'' @ [
      CHR 0xC0, CHR 0xC1, CHR 0xC2, CHR 0xC3, CHR 0xC4, CHR 0xC5, CHR 0xC6, CHR 0xC7,
      CHR 0xC8, CHR 0xC9, CHR 0xCA, CHR 0xCB, CHR 0xCC, CHR 0xCD, CHR 0xCE, CHR 0xCF,
      CHR 0xD0, CHR 0xD1, CHR 0xD2, CHR 0xD3, CHR 0xD4, CHR 0xD5, CHR 0xD6, CHR 0xD8,
      CHR 0xD9, CHR 0xDA, CHR 0xDB, CHR 0xDC, CHR 0xDD, CHR 0xDE]"

definition smalls :: string where
  "smalls = ''abcdefghijklmnopqrstuvwxyz'' @ [
      CHR 0xE0, CHR 0xE1, CHR 0xE2, CHR 0xE3, CHR 0xE4, CHR 0xE5, CHR 0xE6, CHR 0xE7,
      CHR 0xE8, CHR 0xE9, CHR 0xEA, CHR 0xEB, CHR 0xEC, CHR 0xED, CHR 0xEE, CHR 0xEF,
      CHR 0xF0, CHR 0xF1, CHR 0xF2, CHR 0xF3, CHR 0xF4, CHR 0xF5, CHR 0xF6, CHR 0xF8,
      CHR 0xF9, CHR 0xFA, CHR 0xFB, CHR 0xFC, CHR 0xFD, CHR 0xFE]"

definition lowerChar :: "char \<Rightarrow> char" where
  "lowerChar c = (case map_of (zip capitals smalls) c of Some l \<Rightarrow> l | None \<Rightarrow> c)"

definition toLowerCase :: "string \<Rightarrow> string" where
  "toLowerCase s = map lowerChar s"

definition isWhiteSpace :: "char \<Rightarrow> bool" where
  "isWhiteSpace c \<longleftrightarrow>
     c \<in> set [CHR 0x09, CHR 0x0A, CHR 0x0B, CHR 0x0C, CHR 0x0D, CHR '' '', CHR 0xA0]"

definition trim :: "string \<Rightarrow> string" where
  "trim s = rev (dropWhile isWhiteSpace (rev (dropWhile isWhiteSpace s)))"

text \<open>\<open>s.includes(q)\<close>: \<open>q\<close> occurs in \<open>s\<close> at some position.\<close>

fun includes_str :: "string \<Rightarrow> string \<Rightarrow> bool" where
  "includes_str [] q \<longleftrightarrow> q = []"
| "includes_str (c # cs) q \<longleftrightarrow> prefix q (c # cs) \<or> includes_str cs q"

definition filteredSections :: "string \<Rightarrow> Section list" where
  "filteredSections qry =
     (if trim qry = [] then SECTIONS
      else
        let q = toLowerCase qry
        in filter (\<lambda>s. includes_str (toLowerCase (sec_title s)) q
                       \<or> includes_str (toLowerCase (filePath s)) q) SECTIONS)"

text \<open>\<open>onKeyDown\<close> of the search input, by the name of the key.\<close>

definition searchKeyDown :: "string \<Rightarrow> workspace \<Rightarrow> workspace" where
  "searchKeyDown key ws =
     (let ws1 = (if key = ''Escape'' then ws\<lparr>query := []\<rparr> else ws)
      in if key = ''Enter'' then
           (case filteredSections (query ws) of
              [] \<Rightarrow> ws1
            | first # _ \<Rightarrow> (openSection first LeftGroup ws1)\<lparr>query := []\<rparr>)
         else ws1)"

text \<open>
  What the search is meant to compute, stated on the codes of the characters and without
  the functions above. A capital letter has a code from 65 to 90 or from 192 to 222 other
  than 215, and its small letter has the code 32 higher. Two characters are the same
  letter, case ignored, when they are equal or one is a capital letter and the other its
  small letter. A text contains a query, case ignored, when some stretch of the text
  matches the query character by character in that sense. A query is blank when all its
  characters are white space, by code.
\<close>

definition capitalCode :: "nat \<Rightarrow> bool" where
  "capitalCode n \<longleftrightarrow> (65 \<le> n \<and> n \<le> 90) \<or> (192 \<le> n \<and> n \<le> 222 \<and> n \<noteq> 215)"

definition sameLetter :: "char \<Rightarrow> char \<Rightarrow> bool" where
  "sameLetter c d \<longleftrightarrow>
     c = d
     \<or> (capitalCode (of_char c) \<and> (of_char d :: nat) = of_char c + 32)
     \<or> (capitalCode (of_char d) \<and> (of_char c :: nat) = of_char d + 32)"

definition containsIgnoringCase :: "string \<Rightarrow> string \<Rightarrow> bool" where
  "containsIgnoringCase hay qry \<longleftrightarrow>
     (\<exists>before mid after. hay = before @ mid @ after \<and> list_all2 sameLetter mid qry)"

definition blank :: "string \<Rightarrow> bool" where
  "blank qry \<longleftrightarrow> (\<forall>c \<in> set qry. (of_char c :: nat) \<in> {9, 10, 11, 12, 13, 32, 160})"

section \<open>Content loading and the home section\<close>

text \<open>
  \<open>load()\<close> awaits at most two fetches. What the network answers is a parameter: for each
  source, either the fetch rejects, or it resolves to a response with its \<open>ok\<close> flag and
  a body that \<open>res.json()\<close> either rejects or parses (\<open>Json None\<close> is a body that parses
  to \<open>null\<close>). The function returns the sources fetched, in order, with the state.
\<close>

datatype source = Primary | Fallback

datatype body = Malformed | Json "Resume option"

datatype fetched = NetworkError | Response bool body

text \<open>One \<open>try\<close> block: the value it hands to \<open>setResume\<close>, or \<open>None\<close> when it throws.\<close>

definition attempt :: "fetched \<Rightarrow> Resume option option" where
  "attempt r =
     (case r of
        NetworkError \<Rightarrow> None
      | Response ok b \<Rightarrow>
          if \<not> ok then None else (case b of Malformed \<Rightarrow> None | Json data \<Rightarrow> Some data))"

definition load :: "(source \<Rightarrow> fetched) \<Rightarrow> workspace \<Rightarrow> source list \<times> workspace" where
  "load fetch ws =
     (let ws0 = ws\<lparr>resumeLoading := True\<rparr>
      in case attempt (fetch Primary) of
           Some data \<Rightarrow> ([Primary], ws0\<lparr>resume := data, resumeLoading := False\<rparr>)
         | None \<Rightarrow>
             (case attempt (fetch Fallback) of
                Some data2 \<Rightarrow>
                  ([Primary, Fallback], ws0\<lparr>resume := data2, resumeLoading := False\<rparr>)
              | None \<Rightarrow>
                  ([Primary, Fallback], ws0\<lparr>resume := None, resumeLoading := False\<rparr>)))"

text \<open>
  The \<open>home\<close> branch of \<open>getSectionLines\<close> and of \<open>renderEditorContent\<close>. Characters
  outside ASCII are written as their UTF-8 bytes: U+2011 in the static text, U+2026 in the
  placeholder.
\<close>

definition linesFromResume_home :: "Resume option \<Rightarrow> string list option" where
  "linesFromResume_home r =
     (case r of
        None \<Rightarrow> None
      | Some res \<Rightarrow>
          let name = (case Option.bind (basics res) basics_name of
                        Some n \<Rightarrow> n | None \<Rightarrow> ''Lalit Sharma'');
              lbl = (case Option.bind (basics res) basics_label of
                       Some l \<Rightarrow> l | None \<Rightarrow> ''Software Engineer'');
              summary = (case Option.bind (basics res) basics_summary of
                           Some s \<Rightarrow> s | None \<Rightarrow> [])
          in Some (filter (\<lambda>line. line \<noteq> []) [''# '' @ name, lbl, [], summary]))"

definition staticHome :: "string list" where
  "staticHome =
     [''# Lalit Sharma'',
      ''Software Engineer'',
      [],
      ''Detail'' @ [CHR 0xE2, CHR 0x80, CHR 0x91]
        @ ''oriented, organized and meticulous. Works at fast pace to meet tight deadlines.'',
      ''Enthusiastic team player ready to contribute to company success by achieving targets.'']"

definition loadingLines :: "string list" where
  "loadingLines =
     [''# Loading'' @ [CHR 0xE2, CHR 0x80, CHR 0xA6],
      [],
      ''Fetching resume data'' @ [CHR 0xE2, CHR 0x80, CHR 0xA6]]"

definition getSectionLines_home :: "Resume option \<Rightarrow> string list" where
  "getSectionLines_home r =
     (case linesFromResume_home r of Some resumeLines \<Rightarrow> resumeLines | None \<Rightarrow> staticHome)"

definition renderEditorContent_home :: "workspace \<Rightarrow> string list" where
  "renderEditorContent_home ws =
     (let lines = getSectionLines_home (resume ws)
      in if resumeLoading ws then loadingLines else lines)"

section \<open>Sequences of open and close requests\<close>

datatype request = Open Section group | CloseReq SectionId group

fun perform :: "workspace \<Rightarrow> request \<Rightarrow> workspace" where
  "perform ws (Open section target) = openSection section target ws"
| "perform ws (CloseReq tabId g) = closeTab tabId g ws"

definition performAll :: "request list \<Rightarrow> workspace" where
  "performAll rs = foldl perform initial rs"

text \<open>The property of the data model that an active tab id names a tab of its own group.\<close>

definition activeIsOpen :: "group \<Rightarrow> workspace \<Rightarrow> bool" where
  "activeIsOpen g ws \<longleftrightarrow>
     (case activeTabId g ws of
        None \<Rightarrow> True
      | Some a \<Rightarrow> a \<in> set (map tab_id (openTabs g ws)))"

section \<open>Notions used in the proofs and scenarios\<close>

text \<open>
  With the list of a group split at the first occurrence of the closed tab into
  \<open>pre @ t # post\<close>, and \<open>rest\<close> the tabs of \<open>post\<close> that remain: the tab that becomes
  active when the active tab is closed, and the list the group is left with.
\<close>

definition successor :: "group \<Rightarrow> OpenTab list \<Rightarrow> OpenTab list \<Rightarrow> SectionId option" where
  "successor g pre rest =
     (if pre \<noteq> [] then Some (tab_id (last pre))
      else case rest of
             r # _ \<Rightarrow> Some (tab_id r)
           | [] \<Rightarrow> (case g of LeftGroup \<Rightarrow> Some Home | RightGroup \<Rightarrow> None))"

definition floorTabs :: "group \<Rightarrow> OpenTab list \<Rightarrow> OpenTab list" where
  "floorTabs g tabs =
     (if tabs = [] then (case g of LeftGroup \<Rightarrow> [homeTab] | RightGroup \<Rightarrow> []) else tabs)"

definition aboutTab :: OpenTab where
  "aboutTab = \<lparr>tab_id = About, tab_title = ''About''\<rparr>"

definition skillsTab :: OpenTab where
  "skillsTab = \<lparr>tab_id = Skills, tab_title = ''Skills''\<rparr>"

definition contactTab :: OpenTab where
  "contactTab = \<lparr>tab_id = Contact, tab_title = ''Contact''\<rparr>"

definition aboutSection :: Section where
  "aboutSection = \<lparr>sec_id = About, sec_title = ''About'', filePath = ''about.md''\<rparr>"

definition contactSection :: Section where
  "contactSection = \<lparr>sec_id = Contact, sec_title = ''Contact'', filePath = ''contact.tsx''\<rparr>"

text \<open>The state with \<open>home\<close>, \<open>about\<close> and \<open>skills\<close> open on the left and \<open>skills\<close> active.\<close>

definition threeTabs :: workspace where
  "threeTabs = initial\<lparr>leftOpenTabs := [homeTab, aboutTab, skillsTab], leftActiveTabId := Skills\<rparr>"

text \<open>
  The state after these user actions from the initial one: open \<open>about\<close> from the
  explorer, right-click its tab (the second of the left group) and choose Split Right,
  then right-click the tab \<open>about\<close> of the right group. It has \<open>home\<close> alone on the left,
  \<open>about\<close> alone on the right, and the context menu open on the right tab.
\<close>

definition menuOnRightAbout :: workspace where
  "menuOnRightAbout =
     tabContextMenu RightGroup 0 0 0
       (menuButton SplitRight
          (tabContextMenu LeftGroup 1 0 0 (openSection aboutSection LeftGroup initial)))"

text \<open>A drag of the first of the three tabs has started.\<close>

definition draggingFirst :: workspace where
  "draggingFirst = handleTabDragStart 0 threeTabs"

text \<open>A fetch that fails in the sense of the description: a network error or a response
  that is not a success.\<close>

definition fails :: "fetched \<Rightarrow> bool" where
  "fails r = (case r of NetworkError \<Rightarrow> True | Response ok _ \<Rightarrow> \<not> ok)"

text \<open>A network on which every fetch is rejected.\<close>

definition offline :: "source \<Rightarrow> fetched" where
  "offline src = NetworkError"

text \<open>A splitter drag in progress, grabbed at the splitter itself, in a container that
  starts at the left edge of the window and is 1000 px wide.\<close>

definition resizing :: workspace where
  "resizing = initial\<lparr>isResizing := True, dragOffsetPx := Some 0\<rparr>"

definition wideRect :: DOMRect where
  "wideRect = \<lparr>rect_left = 0, rect_width = 1000\<rparr>"

text \<open>The search box holding a query that matches no section.\<close>

definition searchingNoMatch :: workspace where
  "searchingNoMatch = initial\<lparr>query := ''xyz-no-match''\<rparr>"

definition skillsSection :: Section where
  "skillsSection = \<lparr>sec_id = Skills, sec_title = ''Skills'', filePath = ''skills.ts''\<rparr>"

text \<open>The context menu opened on \<open>skills\<close>, the third tab of the left group, in \<open>threeTabs\<close>.\<close>

definition menuOnLeftSkills :: workspace where
  "menuOnLeftSkills = tabContextMenu LeftGroup 2 0 0 threeTabs"

section \<open>Array primitives\<close>

lemma findIndex_first:
  "\<forall>p \<in> set pre. \<not> P p \<Longrightarrow> P t \<Longrightarrow> findIndex P (pre @ t # post) = int (length pre)"
  by (induction pre) (auto simp: Let_def)

lemma findIndex_lower: "- 1 \<le> findIndex P xs"
  by (induction xs) (auto simp: Let_def)

lemma findIndex_absent: "findIndex P xs = - 1 \<longleftrightarrow> (\<forall>x \<in> set xs. \<not> P x)"
proof (induction xs)
  case Nil
  show ?case by simp
next
  case (Cons x xs)
  with findIndex_lower [of P xs] show ?case by (auto simp: Let_def)
qed

lemma filter_first:
  "\<forall>p \<in> set pre. tab_id p \<noteq> tabId \<Longrightarrow> tab_id t = tabId \<Longrightarrow>
   filter (\<lambda>u. tab_id u \<noteq> tabId) (pre @ t # post) = pre @ filter (\<lambda>u. tab_id u \<noteq> tabId) post"
  by (induction pre) auto

lemma elemAt_left_neighbour:
  "elemAt (pre @ rest) (int (length pre) - 1) = (if pre = [] then None else Some (last pre))"
  by (cases pre rule: rev_cases) (auto simp: elemAt_def nth_append)

lemma first_occurrence:
  assumes "tabId \<in> set (map tab_id tabs)"
  obtains pre t post where "tabs = pre @ t # post" "tab_id t = tabId"
    "\<forall>p \<in> set pre. tab_id p \<noteq> tabId"
proof -
  from assms have "\<exists>x \<in> set tabs. tab_id x = tabId" by auto
  then obtain pre t post where "tabs = pre @ t # post" "tab_id t = tabId"
    "\<forall>p \<in> set pre. \<not> tab_id p = tabId"
    by (auto simp: split_list_first_prop_iff)
  then show ?thesis using that by blast
qed

section \<open>The cells of a group\<close>

lemma openTabs_setOpen [simp]:
  "openTabs g (setOpen g tabs ws) = tabs"
  "activeTabId g (setOpen g' tabs ws) = activeTabId g ws"
  by (cases g; cases g'; simp add: openTabs_def setOpen_def activeTabId_def)+

lemma openTabs_setActive [simp]: "openTabs g (setActive g' a ws) = openTabs g ws"
  by (cases g; cases g'; cases a; simp add: openTabs_def setActive_def)

lemma openTabs_setOpen_other [simp]:
  "g \<noteq> g' \<Longrightarrow> openTabs g (setOpen g' tabs ws) = openTabs g ws"
  by (cases g; cases g'; simp add: openTabs_def setOpen_def)

lemma activeTabId_setActive_other [simp]:
  "g \<noteq> g' \<Longrightarrow> activeTabId g (setActive g' a ws) = activeTabId g ws"
  by (cases g; cases g'; cases a; simp add: activeTabId_def setActive_def)

lemma activeTabId_setActive_successor [simp]:
  "activeTabId g (setActive g (successor g pre rest) ws) = successor g pre rest"
  by (cases g; cases rest; simp add: activeTabId_def setActive_def successor_def)

lemma activeTabId_setActive_Some [simp]:
  "activeTabId g (setActive g (Some a) ws) = Some a"
  by (cases g; simp add: activeTabId_def setActive_def)

lemma activeIsOpen_iff:
  "activeIsOpen g ws \<longleftrightarrow>
     (\<forall>a. activeTabId g ws = Some a \<longrightarrow> a \<in> set (map tab_id (openTabs g ws)))"
  by (simp add: activeIsOpen_def split: option.splits)

section \<open>Closing a tab\<close>

text \<open>
  \<open>closeTab\<close> on a group whose list holds the tab, in terms of the split of the list at
  the first occurrence of the tab.
\<close>

lemma closeTab_split:
  assumes split: "openTabs g ws = pre @ t # post"
    and t: "tab_id t = tabId"
    and first: "\<forall>p \<in> set pre. tab_id p \<noteq> tabId"
  shows "closeTab tabId g ws =
           (let rest = filter (\<lambda>u. tab_id u \<noteq> tabId) post
            in if activeTabId g ws = Some tabId
               then setOpen g (floorTabs g (pre @ rest)) (setActive g (successor g pre rest) ws)
               else setOpen g (floorTabs g (pre @ rest)) ws)"
proof -
  let ?rest = "filter (\<lambda>u. tab_id u \<noteq> tabId) post"
  have idx: "findIndex (\<lambda>u. tab_id u = tabId) (openTabs g ws) = int (length pre)"
    using first t by (simp add: split findIndex_first)
  have nxt: "filter (\<lambda>u. tab_id u \<noteq> tabId) (openTabs g ws) = pre @ ?rest"
    using first t by (simp add: split filter_first)
  show ?thesis
  proof (cases "activeTabId g ws = Some tabId")
    case False
    with idx nxt show ?thesis
      by (simp add: closeTab_def Let_def floorTabs_def)
  next
    case True
    note active = this
    show ?thesis
    proof (cases "pre = []")
      case True
      show ?thesis
      proof (cases ?rest)
        case Nil
        with True idx nxt active show ?thesis
          by (cases g) (simp_all add: closeTab_def Let_def orElse_def elemAt_def
              floorTabs_def successor_def setOpen_def setActive_def)
      next
        case (Cons r rs)
        with True idx nxt active show ?thesis
          by (cases g) (simp_all add: closeTab_def Let_def orElse_def elemAt_def
              floorTabs_def successor_def setOpen_def setActive_def)
      qed
    next
      case False
      have left: "elemAt (pre @ ?rest) (int (length pre) - 1) = Some (last pre)"
        using False by (simp add: elemAt_left_neighbour)
      from False idx nxt active left show ?thesis
        by (simp add: closeTab_def Let_def orElse_def floorTabs_def successor_def)
    qed
  qed
qed

lemma closeTab_absent:
  assumes "tabId \<notin> set (map tab_id (openTabs g ws))"
  shows "closeTab tabId g ws = ws"
proof -
  from assms have "findIndex (\<lambda>u. tab_id u = tabId) (openTabs g ws) = - 1"
    by (auto simp: findIndex_absent)
  then show ?thesis by (simp add: closeTab_def Let_def)
qed

text \<open>
  Claim C1. When \<open>closeTab\<close> removes the active tab of a group, the tab immediately to
  the left of the removed tab becomes active; when the removed tab was the first one, the
  tab that now stands at its index; and when no tab remains, \<open>home\<close> in the left group
  (whose list is reset to the home tab) and none in the right group (whose list is empty).
  The list is split at the removed tab: \<open>pre\<close> are the tabs to its left.
\<close>

theorem closeTab_active_fallback:
  assumes split: "openTabs g ws = pre @ t # post"
    and t: "tab_id t = tabId"
    and first: "\<forall>p \<in> set pre. tab_id p \<noteq> tabId"
    and active: "activeTabId g ws = Some tabId"
  shows "activeTabId g (closeTab tabId g ws) =
           (if pre \<noteq> [] then Some (tab_id (last pre))
            else case filter (\<lambda>u. tab_id u \<noteq> tabId) post of
                   r # _ \<Rightarrow> Some (tab_id r)
                 | [] \<Rightarrow> (case g of LeftGroup \<Rightarrow> Some Home | RightGroup \<Rightarrow> None))
         \<and> openTabs g (closeTab tabId g ws) =
           (if pre @ filter (\<lambda>u. tab_id u \<noteq> tabId) post = []
            then (case g of LeftGroup \<Rightarrow> [homeTab] | RightGroup \<Rightarrow> [])
            else pre @ filter (\<lambda>u. tab_id u \<noteq> tabId) post)"
proof -
  let ?rest = "filter (\<lambda>u. tab_id u \<noteq> tabId) post"
  have "activeTabId g (closeTab tabId g ws) = successor g pre ?rest"
    using active by (simp add: closeTab_split [OF split t first] Let_def)
  moreover have "openTabs g (closeTab tabId g ws) = floorTabs g (pre @ ?rest)"
    using active by (simp add: closeTab_split [OF split t first] Let_def)
  ultimately show ?thesis by (simp add: successor_def floorTabs_def)
qed

text \<open>The scenario of C1: with \<open>home\<close>, \<open>about\<close>, \<open>skills\<close> open and \<open>skills\<close> active,
  closing \<open>skills\<close> makes \<open>about\<close> active.\<close>

theorem closeTab_active_fallback_witness:
  "openTabs LeftGroup threeTabs = [homeTab, aboutTab] @ skillsTab # []
   \<and> tab_id skillsTab = Skills
   \<and> tab_id homeTab \<noteq> Skills \<and> tab_id aboutTab \<noteq> Skills
   \<and> activeTabId LeftGroup threeTabs = Some Skills
   \<and> activeTabId LeftGroup (closeTab Skills LeftGroup threeTabs) = Some About
   \<and> openTabs LeftGroup (closeTab Skills LeftGroup threeTabs) = [homeTab, aboutTab]"
proof -
  have split: "openTabs LeftGroup threeTabs = [homeTab, aboutTab] @ skillsTab # []"
    by (simp add: openTabs_def threeTabs_def)
  have t: "tab_id skillsTab = Skills"
    by (simp add: skillsTab_def)
  have first: "\<forall>p \<in> set [homeTab, aboutTab]. tab_id p \<noteq> Skills"
    by (simp add: homeTab_def aboutTab_def)
  have active: "activeTabId LeftGroup threeTabs = Some Skills"
    by (simp add: activeTabId_def threeTabs_def)
  from closeTab_active_fallback [OF split t first active] split t first active
  show ?thesis by (simp add: aboutTab_def homeTab_def)
qed

lemma successor_open:
  "successor g pre rest = Some a \<Longrightarrow> a \<in> set (map tab_id (floorTabs g (pre @ rest)))"
  by (cases g; cases rest; cases pre rule: rev_cases)
     (auto simp: successor_def floorTabs_def homeTab_def split: if_splits)

lemma closeTab_keeps_activeIsOpen:
  assumes "activeIsOpen g ws"
  shows "activeIsOpen g (closeTab tabId h ws)"
proof (cases "tabId \<in> set (map tab_id (openTabs h ws))")
  case False
  with assms show ?thesis by (simp add: closeTab_absent)
next
  case True
  then obtain pre t post where split: "openTabs h ws = pre @ t # post"
    and t: "tab_id t = tabId" and first: "\<forall>p \<in> set pre. tab_id p \<noteq> tabId"
    by (rule first_occurrence)
  let ?rest = "filter (\<lambda>u. tab_id u \<noteq> tabId) post"
  note eq = closeTab_split [OF split t first]
  show ?thesis
  proof (cases "g = h")
    case False
    with assms show ?thesis
      by (simp add: eq Let_def activeIsOpen_iff)
  next
    case True
    show ?thesis
    proof (cases "activeTabId h ws = Some tabId")
      case True
      with \<open>g = h\<close> show ?thesis
        using successor_open [of h pre ?rest]
        by (simp add: eq Let_def activeIsOpen_iff)
    next
      case False
      have "a \<in> set (map tab_id (floorTabs h (pre @ ?rest)))"
        if a: "activeTabId h ws = Some a" for a
      proof -
        from assms \<open>g = h\<close> a have "a \<in> set (map tab_id (pre @ t # post))"
          by (simp add: activeIsOpen_iff split)
        moreover from a False have "a \<noteq> tabId" by auto
        ultimately have "a \<in> set (map tab_id (pre @ ?rest))"
          using t by auto
        then show ?thesis
          by (cases "pre @ ?rest = []")
            (simp_all only: floorTabs_def if_False list.map list.set empty_iff)
      qed
      with False \<open>g = h\<close> show ?thesis
        by (simp add: eq Let_def activeIsOpen_iff)
    qed
  qed
qed

section \<open>Opening a section\<close>

lemma openSection_activeIsOpen:
  assumes "activeIsOpen g ws"
  shows "activeIsOpen g (openSection section h ws)"
proof (cases "g = h")
  case True
  then show ?thesis
    by (force simp: openSection_def Let_def activeIsOpen_iff)
next
  case False
  with assms show ?thesis
    by (simp add: openSection_def Let_def activeIsOpen_iff)
qed

lemma openSection_nonempty:
  "openTabs g ws \<noteq> [] \<Longrightarrow> openTabs g (openSection section h ws) \<noteq> []"
  by (cases "g = h") (simp_all add: openSection_def Let_def)

lemma closeTab_nonempty_left:
  assumes "openTabs LeftGroup ws \<noteq> []"
  shows "openTabs LeftGroup (closeTab tabId h ws) \<noteq> []"
proof (cases "tabId \<in> set (map tab_id (openTabs h ws))")
  case False
  with assms show ?thesis by (simp add: closeTab_absent)
next
  case True
  then obtain pre t post where split: "openTabs h ws = pre @ t # post"
    and t: "tab_id t = tabId" and first: "\<forall>p \<in> set pre. tab_id p \<noteq> tabId"
    by (rule first_occurrence)
  show ?thesis
  proof (cases "h = LeftGroup")
    case True
    have "openTabs h (closeTab tabId h ws) =
            floorTabs h (pre @ filter (\<lambda>u. tab_id u \<noteq> tabId) post)"
      by (simp add: closeTab_split [OF split t first] Let_def)
    moreover have "floorTabs LeftGroup (pre @ filter (\<lambda>u. tab_id u \<noteq> tabId) post) \<noteq> []"
      by (simp add: floorTabs_def)
    ultimately show ?thesis using True by simp
  next
    case False
    then have "LeftGroup \<noteq> h" by simp
    with assms show ?thesis
      by (simp add: closeTab_split [OF split t first] Let_def)
  qed
qed

section \<open>Sequences of open and close requests on the initial workspace\<close>

lemma perform_keeps_left:
  assumes "openTabs LeftGroup ws \<noteq> [] \<and> activeIsOpen LeftGroup ws"
  shows "openTabs LeftGroup (perform ws r) \<noteq> [] \<and> activeIsOpen LeftGroup (perform ws r)"
  using assms
  by (cases r)
    (simp_all add: openSection_nonempty openSection_activeIsOpen
      closeTab_nonempty_left closeTab_keeps_activeIsOpen)

lemma foldl_perform_keeps_left:
  "openTabs LeftGroup ws \<noteq> [] \<and> activeIsOpen LeftGroup ws \<Longrightarrow>
   openTabs LeftGroup (foldl perform ws rs) \<noteq> []
   \<and> activeIsOpen LeftGroup (foldl perform ws rs)"
proof (induction rs arbitrary: ws)
  case Nil
  then show ?case by simp
next
  case (Cons r rs)
  from Cons.prems have "openTabs LeftGroup (perform ws r) \<noteq> []
      \<and> activeIsOpen LeftGroup (perform ws r)"
    by (rule perform_keeps_left)
  then show ?case by (simp add: Cons.IH)
qed

lemma initial_left:
  "openTabs LeftGroup initial \<noteq> [] \<and> activeIsOpen LeftGroup initial"
  by (simp add: initial_def openTabs_def activeIsOpen_def activeTabId_def homeTab_def)

lemma close_last_left_tab:
  assumes only: "leftOpenTabs ws = [x]" and inv: "activeIsOpen LeftGroup ws"
  shows "leftOpenTabs (closeTab (tab_id x) LeftGroup ws) = [homeTab]
         \<and> leftActiveTabId (closeTab (tab_id x) LeftGroup ws) = Home"
proof -
  have split: "openTabs LeftGroup ws = [] @ x # []"
    using only by (simp add: openTabs_def)
  have active: "activeTabId LeftGroup ws = Some (tab_id x)"
    using only inv by (simp add: activeIsOpen_iff activeTabId_def openTabs_def)
  have "closeTab (tab_id x) LeftGroup ws =
          setOpen LeftGroup [homeTab] (setActive LeftGroup (Some Home) ws)"
    using active
    by (simp add: closeTab_split [OF split] Let_def floorTabs_def successor_def)
  then show ?thesis by (simp add: setOpen_def setActive_def)
qed

text \<open>
  Claim C3. After any finite sequence of open and close requests (on either group) from
  the initial workspace, the tab list of the left group is not empty; and when it holds a
  single tab, closing that tab resets the list to the home tab alone, with \<open>home\<close> active.
\<close>

theorem left_group_never_empty:
  "leftOpenTabs (performAll rs) \<noteq> []
   \<and> (\<forall>x. leftOpenTabs (performAll rs) = [x] \<longrightarrow>
          leftOpenTabs (closeTab (tab_id x) LeftGroup (performAll rs)) = [homeTab]
          \<and> leftActiveTabId (closeTab (tab_id x) LeftGroup (performAll rs)) = Home)"
proof -
  have inv: "openTabs LeftGroup (performAll rs) \<noteq> []
      \<and> activeIsOpen LeftGroup (performAll rs)"
    unfolding performAll_def by (rule foldl_perform_keeps_left [OF initial_left])
  then have "leftOpenTabs (performAll rs) \<noteq> []"
    by (simp add: openTabs_def)
  moreover have "leftOpenTabs (closeTab (tab_id x) LeftGroup (performAll rs)) = [homeTab]
      \<and> leftActiveTabId (closeTab (tab_id x) LeftGroup (performAll rs)) = Home"
    if "leftOpenTabs (performAll rs) = [x]" for x
    using that inv by (simp add: close_last_left_tab)
  ultimately show ?thesis by blast
qed

text \<open>The scenario of the description: open \<open>contact\<close>, close \<open>home\<close>, and \<open>contact\<close> is
  the one tab left; closing it brings the home tab back.\<close>

theorem left_group_never_empty_witness:
  "leftOpenTabs (performAll [Open contactSection LeftGroup, CloseReq Home LeftGroup])
     = [contactTab]
   \<and> leftOpenTabs (closeTab (tab_id contactTab) LeftGroup
        (performAll [Open contactSection LeftGroup, CloseReq Home LeftGroup])) = [homeTab]
   \<and> leftActiveTabId (closeTab (tab_id contactTab) LeftGroup
        (performAll [Open contactSection LeftGroup, CloseReq Home LeftGroup])) = Home"
proof -
  have one: "leftOpenTabs (performAll [Open contactSection LeftGroup, CloseReq Home LeftGroup])
      = [contactTab]"
    by (simp add: performAll_def initial_def openSection_def closeTab_def Let_def
        openTabs_def activeTabId_def setOpen_def setActive_def homeTab_def contactTab_def
        contactSection_def)
  with left_group_never_empty [of "[Open contactSection LeftGroup, CloseReq Home LeftGroup]"]
  show ?thesis by simp
qed

section \<open>Drag reordering\<close>

text \<open>The drop of a tab dragged from position \<open>i\<close> onto the tab at another position \<open>j\<close>.\<close>

lemma handleTabDrop_moves:
  assumes drag: "dragIndex ws = Some i"
    and i: "i < length (leftOpenTabs ws)"
    and ij: "i \<noteq> j"
  shows "handleTabDrop j ws =
           Some (ws\<lparr>leftOpenTabs :=
                      take (if i < j then j - 1 else j)
                        (take i (leftOpenTabs ws) @ drop (Suc i) (leftOpenTabs ws))
                      @ leftOpenTabs ws ! i
                      # drop (if i < j then j - 1 else j)
                          (take i (leftOpenTabs ws) @ drop (Suc i) (leftOpenTabs ws)),
                    dragIndex := None, dragOverIndex := None\<rparr>)"
proof -
  from i have "drop i (leftOpenTabs ws) = leftOpenTabs ws ! i # drop (Suc i) (leftOpenTabs ws)"
    by (simp add: Cons_nth_drop_Suc)
  with drag ij show ?thesis
    by (simp add: handleTabDrop_def splice_def Let_def)
qed

lemma handleTabDrop_same:
  "dragIndex ws = Some i \<Longrightarrow>
   handleTabDrop i ws = Some (ws\<lparr>dragIndex := None, dragOverIndex := None\<rparr>)"
  by (simp add: handleTabDrop_def)

lemma handleTabDrop_idle: "dragIndex ws = None \<Longrightarrow> handleTabDrop j ws = Some ws"
  by (simp add: handleTabDrop_def)

lemma insert_at_nth: "k \<le> length zs \<Longrightarrow> (take k zs @ m # drop k zs) ! k = m"
  by (simp add: nth_append)

lemma insert_at_others:
  "k \<le> length zs \<Longrightarrow>
   take k (take k zs @ m # drop k zs) @ drop (Suc k) (take k zs @ m # drop k zs) = zs"
  by simp

lemma mset_insert_at: "mset (take k zs @ m # drop k zs) = add_mset m (mset zs)"
proof -
  have "mset (take k zs) + mset (drop k zs) = mset zs"
    by (metis append_take_drop_id mset_append)
  then show ?thesis by simp
qed

lemma mset_remove_at:
  assumes "i < length xs"
  shows "add_mset (xs ! i) (mset (take i xs @ drop (Suc i) xs)) = mset xs"
proof -
  from assms have "xs = take i xs @ xs ! i # drop (Suc i) xs"
    by (rule id_take_nth_drop)
  then have "mset xs = mset (take i xs @ xs ! i # drop (Suc i) xs)"
    by simp
  then show ?thesis by simp
qed

text \<open>
  Claim C5. For a drag from position \<open>i\<close> dropped on position \<open>j\<close>, both within the left
  list, the drop completes and the new list is a permutation of the old one: the same
  multiset of tabs (hence of tab ids). When \<open>i \<noteq> j\<close> the dragged tab stands at the
  insertion index \<open>k\<close> (\<open>j - 1\<close> when \<open>i < j\<close>, else \<open>j\<close>), and the list without it is the
  old list without it, so all other tabs keep their relative order. When \<open>i = j\<close> the
  list is unchanged.
\<close>

theorem handleTabDrop_permutation:
  assumes drag: "dragIndex ws = Some i"
    and i: "i < length (leftOpenTabs ws)"
    and j: "j < length (leftOpenTabs ws)"
  shows "case handleTabDrop j ws of
           None \<Rightarrow> False
         | Some ws' \<Rightarrow>
             (let xs = leftOpenTabs ws; ys = leftOpenTabs ws';
                  k = (if i < j then j - 1 else j)
              in mset ys = mset xs
                 \<and> mset (map tab_id ys) = mset (map tab_id xs)
                 \<and> (if i = j then ys = xs
                    else ys ! k = xs ! i
                         \<and> take k ys @ drop (Suc k) ys = take i xs @ drop (Suc i) xs))"
proof (cases "i = j")
  case True
  with drag show ?thesis by (simp add: handleTabDrop_same)
next
  case False
  define xs where "xs = leftOpenTabs ws"
  define zs where "zs = take i xs @ drop (Suc i) xs"
  define k where "k = (if i < j then j - 1 else j)"
  define ys where "ys = take k zs @ xs ! i # drop k zs"
  have i': "i < length xs" and j': "j < length xs"
    using i j by (simp_all add: xs_def)
  have len: "length zs = length xs - 1"
    using i' by (simp add: zs_def)
  have k: "k \<le> length zs"
  proof (cases "i < j")
    case True
    then have "k = j - 1" by (simp add: k_def)
    with j' len show ?thesis by linarith
  next
    case False
    then have "k = j" by (simp add: k_def)
    with False \<open>i \<noteq> j\<close> i' len show ?thesis by linarith
  qed
  have nth: "ys ! k = xs ! i"
    unfolding ys_def using k by (rule insert_at_nth)
  have others: "take k ys @ drop (Suc k) ys = zs"
    unfolding ys_def using k by (rule insert_at_others)
  have perm: "mset ys = mset xs"
    unfolding ys_def mset_insert_at zs_def using i' by (rule mset_remove_at)
  then have ids: "mset (map tab_id ys) = mset (map tab_id xs)"
    by (metis mset_map)
  have "handleTabDrop j ws =
          Some (ws\<lparr>leftOpenTabs := ys, dragIndex := None, dragOverIndex := None\<rparr>)"
    unfolding ys_def zs_def k_def xs_def by (rule handleTabDrop_moves [OF drag i False])
  moreover have "let xs' = xs; ys' = ys; k' = k
                 in mset ys' = mset xs'
                    \<and> mset (map tab_id ys') = mset (map tab_id xs')
                    \<and> (if i = j then ys' = xs'
                       else ys' ! k' = xs' ! i
                            \<and> take k' ys' @ drop (Suc k') ys' = take i xs' @ drop (Suc i) xs')"
    using perm ids nth others False by (simp add: zs_def)
  ultimately show ?thesis
    by (simp add: xs_def k_def)
qed

text \<open>The first of three tabs dropped on the third: it lands between the other two.\<close>

theorem handleTabDrop_permutation_witness:
  "dragIndex draggingFirst = Some 0
   \<and> 0 < length (leftOpenTabs draggingFirst)
   \<and> 2 < length (leftOpenTabs draggingFirst)
   \<and> map_option leftOpenTabs (handleTabDrop 2 draggingFirst)
       = Some [aboutTab, homeTab, skillsTab]"
proof -
  have drag: "dragIndex draggingFirst = Some 0"
    by (simp add: draggingFirst_def handleTabDragStart_def)
  have tabs: "leftOpenTabs draggingFirst = [homeTab, aboutTab, skillsTab]"
    by (simp add: draggingFirst_def handleTabDragStart_def threeTabs_def)
  have i: "0 < length (leftOpenTabs draggingFirst)" and j: "2 < length (leftOpenTabs draggingFirst)"
    by (simp_all add: tabs)
  obtain ws' where ws': "handleTabDrop 2 draggingFirst = Some ws'"
    using handleTabDrop_permutation [OF drag i j] by (cases "handleTabDrop 2 draggingFirst") simp_all
  have "leftOpenTabs ws' = [aboutTab, homeTab, skillsTab]"
    using ws' drag tabs by (simp add: handleTabDrop_def splice_def Let_def) auto
  with drag i j ws' show ?thesis by simp
qed

text \<open>
  Claim C10. A completed drop changes nothing but the order of the left tabs and the two
  drag indices: the active tab of the left group, the tabs and the active tab of the right
  group and the split ratio are as before, and so is every other cell of the state.
\<close>

theorem handleTabDrop_frame:
  assumes "handleTabDrop index ws = Some ws'"
  shows "leftActiveTabId ws' = leftActiveTabId ws
         \<and> rightOpenTabs ws' = rightOpenTabs ws
         \<and> rightActiveTabId ws' = rightActiveTabId ws
         \<and> splitRatio ws' = splitRatio ws
         \<and> ws' = ws\<lparr>leftOpenTabs := leftOpenTabs ws', dragIndex := dragIndex ws',
                     dragOverIndex := dragOverIndex ws'\<rparr>"
  using assms
  by (auto simp: handleTabDrop_def splice_def Let_def
      split: option.splits if_splits prod.splits list.splits)

theorem handleTabDrop_frame_witness:
  "handleTabDrop 2 draggingFirst
     = Some (threeTabs\<lparr>leftOpenTabs := [aboutTab, homeTab, skillsTab]\<rparr>)
   \<and> leftActiveTabId (threeTabs\<lparr>leftOpenTabs := [aboutTab, homeTab, skillsTab]\<rparr>)
       = leftActiveTabId draggingFirst
   \<and> rightOpenTabs (threeTabs\<lparr>leftOpenTabs := [aboutTab, homeTab, skillsTab]\<rparr>)
       = rightOpenTabs draggingFirst
   \<and> rightActiveTabId (threeTabs\<lparr>leftOpenTabs := [aboutTab, homeTab, skillsTab]\<rparr>)
       = rightActiveTabId draggingFirst
   \<and> splitRatio (threeTabs\<lparr>leftOpenTabs := [aboutTab, homeTab, skillsTab]\<rparr>)
       = splitRatio draggingFirst"
proof -
  have drop: "handleTabDrop 2 draggingFirst
      = Some (threeTabs\<lparr>leftOpenTabs := [aboutTab, homeTab, skillsTab]\<rparr>)"
    by (simp add: draggingFirst_def handleTabDragStart_def threeTabs_def initial_def
        handleTabDrop_def splice_def Let_def)
  from handleTabDrop_frame [OF drop] drop show ?thesis by simp
qed

text \<open>A tab dropped on its right neighbour is taken out and put back where it was.\<close>

lemma handleTabDrop_on_right_neighbour:
  "map_option leftOpenTabs (handleTabDrop 1 draggingFirst) = Some [homeTab, aboutTab, skillsTab]"
  by (simp add: draggingFirst_def handleTabDragStart_def threeTabs_def initial_def
      handleTabDrop_def splice_def Let_def)

section \<open>The scenario states\<close>

lemma menuOnRightAbout_state:
  "menuOnRightAbout =
     initial\<lparr>leftOpenTabs := [homeTab], leftActiveTabId := Home,
             rightOpenTabs := [aboutTab], rightActiveTabId := Some About,
             contextMenu := Some \<lparr>menu_x = 0, menu_y = 0, menu_tabId = About,
                                  menu_group = RightGroup\<rparr>\<rparr>"
  by (simp add: menuOnRightAbout_def tabContextMenu_def menuButton_def showSplit_def
      openSection_def splitTab_def SECTIONS_def Let_def openTabs_def setOpen_def setActive_def
      elemAt_def initial_def aboutSection_def aboutTab_def homeTab_def)

section \<open>Moving a tab to the other group\<close>

lemma find_section:
  "\<exists>s \<in> set SECTIONS. sec_id s = tabId \<and> find (\<lambda>s. sec_id s = tabId) SECTIONS = Some s"
  by (cases tabId) (simp_all add: SECTIONS_def)

lemma find_filter:
  "find P xs = (case filter P xs of [] \<Rightarrow> None | x # _ \<Rightarrow> Some x)"
  by (induction xs) simp_all

lemma filter_id_at_most_one:
  "distinct (map f xs) \<Longrightarrow> length (filter (\<lambda>x. f x = a) xs) \<le> 1"
proof (induction xs)
  case Nil
  show ?case by simp
next
  case (Cons x xs)
  show ?case
  proof (cases "f x = a")
    case True
    from Cons.prems have "f x \<notin> f ` set xs" by simp
    with True have "\<forall>y \<in> set xs. f y \<noteq> a" by blast
    then have "filter (\<lambda>y. f y = a) xs = []"
      by (simp add: filter_empty_conv)
    with True show ?thesis by simp
  next
    case False
    with Cons show ?thesis by simp
  qed
qed

lemma others_remain:
  assumes "distinct (map tab_id src)" and "2 \<le> length src"
  shows "filter (\<lambda>t. tab_id t \<noteq> tabId) src \<noteq> []"
proof -
  have "length (filter (\<lambda>t. tab_id t = tabId) src)
          + length (filter (\<lambda>t. \<not> tab_id t = tabId) src) = length src"
    by (rule sum_length_filter_compl)
  moreover have "length (filter (\<lambda>t. tab_id t = tabId) src) \<le> 1"
    using assms(1) by (rule filter_id_at_most_one)
  ultimately have "1 \<le> length (filter (\<lambda>t. tab_id t \<noteq> tabId) src)"
    using assms(2) by linarith
  then show ?thesis by auto
qed

text \<open>What \<open>splitTab\<close> writes when the tab moves from the left group to the right one.\<close>

lemma splitTab_to_right:
  assumes "find (\<lambda>s. sec_id s = tabId) SECTIONS = Some section"
  shows "splitTab tabId RightGroup LeftGroup ws =
           ws\<lparr>rightOpenTabs :=
                 (if tabId \<in> set (map tab_id (rightOpenTabs ws)) then rightOpenTabs ws
                  else rightOpenTabs ws @ [\<lparr>tab_id = tabId, tab_title = sec_title section\<rparr>]),
               rightActiveTabId := Some tabId,
               leftOpenTabs := filter (\<lambda>t. tab_id t \<noteq> tabId) (leftOpenTabs ws),
               leftActiveTabId :=
                 (if leftActiveTabId ws = tabId
                  then (case filter (\<lambda>t. tab_id t \<noteq> tabId) (leftOpenTabs ws) of
                          [] \<Rightarrow> Home | r # _ \<Rightarrow> tab_id r)
                  else leftActiveTabId ws)\<rparr>"
  using assms
  by (auto simp: splitTab_def Let_def find_filter split: list.splits)

lemma splitTab_to_left:
  assumes "find (\<lambda>s. sec_id s = tabId) SECTIONS = Some section"
  shows "splitTab tabId LeftGroup RightGroup ws =
           ws\<lparr>leftOpenTabs :=
                 (if tabId \<in> set (map tab_id (leftOpenTabs ws)) then leftOpenTabs ws
                  else leftOpenTabs ws @ [\<lparr>tab_id = tabId, tab_title = sec_title section\<rparr>]),
               leftActiveTabId := tabId,
               rightOpenTabs := filter (\<lambda>t. tab_id t \<noteq> tabId) (rightOpenTabs ws),
               rightActiveTabId :=
                 (if rightActiveTabId ws = Some tabId
                  then (case filter (\<lambda>t. tab_id t \<noteq> tabId) (rightOpenTabs ws) of
                          [] \<Rightarrow> None | r # _ \<Rightarrow> Some (tab_id r))
                  else rightActiveTabId ws)\<rparr>"
  using assms
  by (auto simp: splitTab_def Let_def find_filter split: list.splits)

lemma splitTab_same_left:
  assumes "find (\<lambda>s. sec_id s = tabId) SECTIONS = Some sct"
  shows "splitTab tabId LeftGroup LeftGroup ws =
           ws\<lparr>leftOpenTabs :=
                 (if tabId \<in> set (map tab_id (leftOpenTabs ws)) then leftOpenTabs ws
                  else leftOpenTabs ws @ [\<lparr>tab_id = tabId, tab_title = sec_title sct\<rparr>]),
               leftActiveTabId := tabId\<rparr>"
  using assms by (auto simp: splitTab_def Let_def)

lemma splitTab_same_right:
  assumes "find (\<lambda>s. sec_id s = tabId) SECTIONS = Some sct"
  shows "splitTab tabId RightGroup RightGroup ws =
           ws\<lparr>rightOpenTabs :=
                 (if tabId \<in> set (map tab_id (rightOpenTabs ws)) then rightOpenTabs ws
                  else rightOpenTabs ws @ [\<lparr>tab_id = tabId, tab_title = sec_title sct\<rparr>]),
               rightActiveTabId := Some tabId\<rparr>"
  using assms by (auto simp: splitTab_def Let_def)

text \<open>The four cells \<open>splitTab\<close> writes, for each pair of groups.\<close>

lemma splitTab_cells:
  "let ws' = splitTab tabId direction fromGroup ws;
       src = openTabs fromGroup ws;
       dst = openTabs direction ws;
       remaining = filter (\<lambda>t. tab_id t \<noteq> tabId) src
   in (if tabId \<in> set (map tab_id dst) then openTabs direction ws' = dst
       else \<exists>s \<in> set SECTIONS. sec_id s = tabId
              \<and> openTabs direction ws' = dst @ [\<lparr>tab_id = tabId, tab_title = sec_title s\<rparr>])
      \<and> activeTabId direction ws' = Some tabId
      \<and> (direction \<noteq> fromGroup \<longrightarrow>
            openTabs fromGroup ws' = remaining
            \<and> activeTabId fromGroup ws' =
                (if activeTabId fromGroup ws = Some tabId
                 then (case remaining of
                         r # _ \<Rightarrow> Some (tab_id r)
                       | [] \<Rightarrow> (case fromGroup of LeftGroup \<Rightarrow> Some Home
                                | RightGroup \<Rightarrow> None))
                 else activeTabId fromGroup ws))
      \<and> (direction = fromGroup \<longrightarrow>
            (\<forall>g. g \<noteq> direction \<longrightarrow>
               openTabs g ws' = openTabs g ws \<and> activeTabId g ws' = activeTabId g ws))
      \<and> ws' = ws\<lparr>leftOpenTabs := leftOpenTabs ws', leftActiveTabId := leftActiveTabId ws',
                  rightOpenTabs := rightOpenTabs ws', rightActiveTabId := rightActiveTabId ws'\<rparr>"
proof -
  obtain sct where sec: "sct \<in> set SECTIONS" "sec_id sct = tabId"
    and found: "find (\<lambda>s. sec_id s = tabId) SECTIONS = Some sct"
    using find_section [of tabId] by blast
  have other: "g = RightGroup" if "g \<noteq> LeftGroup" for g
    using that by (cases g) simp_all
  have other': "g = LeftGroup" if "g \<noteq> RightGroup" for g
    using that by (cases g) simp_all
  show ?thesis
  proof (cases direction; cases fromGroup)
    assume d: "direction = LeftGroup" "fromGroup = LeftGroup"
    from sec show ?thesis
      unfolding d
      by (auto simp: splitTab_same_left [OF found] Let_def openTabs_def activeTabId_def
          dest!: other)
  next
    assume d: "direction = RightGroup" "fromGroup = RightGroup"
    from sec show ?thesis
      unfolding d
      by (auto simp: splitTab_same_right [OF found] Let_def openTabs_def activeTabId_def
          dest!: other')
  next
    assume d: "direction = LeftGroup" "fromGroup = RightGroup"
    from sec show ?thesis
      unfolding d
      by (cases "filter (\<lambda>t. tab_id t \<noteq> tabId) (rightOpenTabs ws)")
        (auto simp: splitTab_to_left [OF found] Let_def openTabs_def activeTabId_def)
  next
    assume d: "direction = RightGroup" "fromGroup = LeftGroup"
    from sec show ?thesis
      unfolding d
      by (cases "filter (\<lambda>t. tab_id t \<noteq> tabId) (leftOpenTabs ws)")
        (auto simp: splitTab_to_right [OF found] Let_def openTabs_def activeTabId_def)
  qed
qed

lemma splitTab_destination:
  "if tabId \<in> set (map tab_id (openTabs direction ws))
   then openTabs direction (splitTab tabId direction fromGroup ws) = openTabs direction ws
   else \<exists>s \<in> set SECTIONS. sec_id s = tabId
          \<and> openTabs direction (splitTab tabId direction fromGroup ws) =
              openTabs direction ws @ [\<lparr>tab_id = tabId, tab_title = sec_title s\<rparr>]"
  using splitTab_cells [of tabId direction fromGroup ws] unfolding Let_def by (rule conjunct1)

lemma splitTab_source:
  "direction \<noteq> fromGroup \<Longrightarrow>
   openTabs fromGroup (splitTab tabId direction fromGroup ws) =
     filter (\<lambda>t. tab_id t \<noteq> tabId) (openTabs fromGroup ws)"
  using splitTab_cells [of tabId direction fromGroup ws] unfolding Let_def by blast

lemma splitTab_keeps_distinct:
  assumes "distinct (map tab_id (openTabs direction ws))"
  shows "distinct (map tab_id (openTabs direction (splitTab tabId direction fromGroup ws)))"
proof (cases "tabId \<in> set (map tab_id (openTabs direction ws))")
  case True
  with splitTab_destination [of tabId direction ws fromGroup] assms show ?thesis
    by simp
next
  case False
  with splitTab_destination [of tabId direction ws fromGroup] obtain s :: Section where
    "openTabs direction (splitTab tabId direction fromGroup ws) =
       openTabs direction ws @ [\<lparr>tab_id = tabId, tab_title = sec_title s\<rparr>]"
    by (simp only: if_False) blast
  with False assms show ?thesis by simp
qed

lemma splitTab_source_keeps_a_tab:
  assumes "distinct (map tab_id (openTabs fromGroup ws))"
    and "2 \<le> length (openTabs fromGroup ws)"
  shows "openTabs fromGroup (splitTab tabId direction fromGroup ws) \<noteq> []"
proof (cases "direction = fromGroup")
  case False
  then have "openTabs fromGroup (splitTab tabId direction fromGroup ws) =
          filter (\<lambda>t. tab_id t \<noteq> tabId) (openTabs fromGroup ws)"
    by (rule splitTab_source)
  with others_remain [OF assms] show ?thesis by simp
next
  case True
  from assms(2) have ne: "openTabs fromGroup ws \<noteq> []" by auto
  show ?thesis
  proof (cases "tabId \<in> set (map tab_id (openTabs fromGroup ws))")
    case True
    with splitTab_destination [of tabId fromGroup ws fromGroup] ne \<open>direction = fromGroup\<close>
    show ?thesis by simp
  next
    case False
    with splitTab_destination [of tabId fromGroup ws fromGroup] obtain s :: Section where
      "openTabs fromGroup (splitTab tabId fromGroup fromGroup ws) =
         openTabs fromGroup ws @ [\<lparr>tab_id = tabId, tab_title = sec_title s\<rparr>]"
      by (simp only: if_False) blast
    with \<open>direction = fromGroup\<close> show ?thesis by simp
  qed
qed

lemma menuButton_split:
  assumes "contextMenu ws = Some m"
  shows "menuButton (case direction of LeftGroup \<Rightarrow> SplitLeft | RightGroup \<Rightarrow> SplitRight) ws =
           (if 2 \<le> length (openTabs (menu_group m) ws)
            then (splitTab (menu_tabId m) direction (menu_group m) ws)\<lparr>contextMenu := None\<rparr>
            else ws)"
  using assms by (cases direction) (simp_all add: menuButton_def showSplit_def)

lemma openTabs_contextMenu [simp]: "openTabs g (ws\<lparr>contextMenu := c\<rparr>) = openTabs g ws"
  by (cases g) (simp_all add: openTabs_def)

text \<open>
  Claim C4, as the code has it. \<open>splitTab\<close> appends the tab to the destination list
  exactly when its id is not there yet, so ids that were distinct stay distinct and a
  destination that holds the tab is left as it is, and makes the tab active there. When
  the destination is the other group, the source list is the old one without the tab; the
  active tab of the source group is unchanged if it was another tab, and otherwise it is
  the first tab that remains in the source list, or, when none remains, \<open>home\<close> in the
  left group and none in the right group. When the destination is the source group itself
  nothing is removed and the other group is untouched. No other cell of the state changes.
  The menu entry runs the move only when the source group has at least two tabs, and after
  the entry a source group with distinct ids still has a tab.
\<close>

theorem splitTab_moves:
  "let ws' = splitTab tabId direction fromGroup ws;
       src = openTabs fromGroup ws;
       dst = openTabs direction ws;
       remaining = filter (\<lambda>t. tab_id t \<noteq> tabId) src;
       entry = (case direction of LeftGroup \<Rightarrow> SplitLeft | RightGroup \<Rightarrow> SplitRight)
   in (if tabId \<in> set (map tab_id dst) then openTabs direction ws' = dst
       else \<exists>s \<in> set SECTIONS. sec_id s = tabId
              \<and> openTabs direction ws' = dst @ [\<lparr>tab_id = tabId, tab_title = sec_title s\<rparr>])
      \<and> (distinct (map tab_id dst) \<longrightarrow> distinct (map tab_id (openTabs direction ws')))
      \<and> activeTabId direction ws' = Some tabId
      \<and> (direction \<noteq> fromGroup \<longrightarrow>
            openTabs fromGroup ws' = remaining
            \<and> activeTabId fromGroup ws' =
                (if activeTabId fromGroup ws = Some tabId
                 then (case remaining of
                         r # _ \<Rightarrow> Some (tab_id r)
                       | [] \<Rightarrow> (case fromGroup of LeftGroup \<Rightarrow> Some Home
                                | RightGroup \<Rightarrow> None))
                 else activeTabId fromGroup ws))
      \<and> (direction = fromGroup \<longrightarrow>
            (\<forall>g. g \<noteq> direction \<longrightarrow>
               openTabs g ws' = openTabs g ws \<and> activeTabId g ws' = activeTabId g ws))
      \<and> ws' = ws\<lparr>leftOpenTabs := leftOpenTabs ws', leftActiveTabId := leftActiveTabId ws',
                  rightOpenTabs := rightOpenTabs ws', rightActiveTabId := rightActiveTabId ws'\<rparr>
      \<and> (contextMenu ws = Some m \<and> menu_tabId m = tabId \<and> menu_group m = fromGroup \<longrightarrow>
            menuButton entry ws = (if 2 \<le> length src then ws'\<lparr>contextMenu := None\<rparr> else ws)
            \<and> (distinct (map tab_id src) \<longrightarrow> src \<noteq> [] \<longrightarrow>
                  openTabs fromGroup (menuButton entry ws) \<noteq> []))"
proof -
  let ?ws' = "splitTab tabId direction fromGroup ws"
  let ?entry = "case direction of LeftGroup \<Rightarrow> SplitLeft | RightGroup \<Rightarrow> SplitRight"
  have menu: "menuButton ?entry ws =
      (if 2 \<le> length (openTabs fromGroup ws) then ?ws'\<lparr>contextMenu := None\<rparr> else ws)"
    if "contextMenu ws = Some m" "menu_tabId m = tabId" "menu_group m = fromGroup"
    using menuButton_split [OF that(1), of direction] that(2,3) by simp
  have kept: "openTabs fromGroup (menuButton ?entry ws) \<noteq> []"
    if m: "contextMenu ws = Some m" "menu_tabId m = tabId" "menu_group m = fromGroup"
      and src: "distinct (map tab_id (openTabs fromGroup ws))" "openTabs fromGroup ws \<noteq> []"
  proof (cases "2 \<le> length (openTabs fromGroup ws)")
    case True
    with splitTab_source_keeps_a_tab [OF src(1) True, of tabId direction] menu [OF m]
    show ?thesis by simp
  next
    case False
    with menu [OF m] src(2) show ?thesis by simp
  qed
  from splitTab_cells [of tabId direction fromGroup ws]
    splitTab_keeps_distinct [of direction ws tabId fromGroup] menu kept
  show ?thesis
    unfolding Let_def by blast
qed

text \<open>
  With the menu open on \<open>skills\<close>, the third and active tab of the left group: Split
  Right moves it to the right group, the left group keeps \<open>home\<close> and \<open>about\<close>, and its
  active tab is \<open>home\<close>. And with \<open>about\<close> the only tab of the right group, the move to the
  left, which the menu does not run, would leave the right group empty with no active tab.
\<close>

theorem splitTab_moves_witness:
  "contextMenu menuOnLeftSkills
     = Some \<lparr>menu_x = 0, menu_y = 0, menu_tabId = Skills, menu_group = LeftGroup\<rparr>
   \<and> openTabs RightGroup (splitTab Skills RightGroup LeftGroup menuOnLeftSkills) = [skillsTab]
   \<and> activeTabId RightGroup (splitTab Skills RightGroup LeftGroup menuOnLeftSkills) = Some Skills
   \<and> openTabs LeftGroup (splitTab Skills RightGroup LeftGroup menuOnLeftSkills)
       = [homeTab, aboutTab]
   \<and> activeTabId LeftGroup (splitTab Skills RightGroup LeftGroup menuOnLeftSkills) = Some Home
   \<and> menuButton SplitRight menuOnLeftSkills
       = (splitTab Skills RightGroup LeftGroup menuOnLeftSkills)\<lparr>contextMenu := None\<rparr>
   \<and> openTabs LeftGroup (menuButton SplitRight menuOnLeftSkills) \<noteq> []
   \<and> openTabs RightGroup (splitTab About LeftGroup RightGroup menuOnRightAbout) = []
   \<and> activeTabId RightGroup (splitTab About LeftGroup RightGroup menuOnRightAbout) = None
   \<and> openTabs LeftGroup (splitTab About LeftGroup RightGroup menuOnRightAbout)
       = [homeTab, aboutTab]
   \<and> activeTabId LeftGroup (splitTab About LeftGroup RightGroup menuOnRightAbout) = Some About
   \<and> menuButton SplitLeft menuOnRightAbout = menuOnRightAbout"
proof -
  let ?m = "\<lparr>menu_x = 0, menu_y = 0, menu_tabId = Skills, menu_group = LeftGroup\<rparr>"
  let ?n = "\<lparr>menu_x = 0, menu_y = 0, menu_tabId = About, menu_group = RightGroup\<rparr>"
  have l: "menuOnLeftSkills = threeTabs\<lparr>contextMenu := Some ?m\<rparr>"
    by (simp add: menuOnLeftSkills_def tabContextMenu_def elemAt_def openTabs_def
        threeTabs_def skillsTab_def)
  have menu: "contextMenu menuOnLeftSkills = Some ?m"
    by (simp add: l)
  have src: "openTabs LeftGroup menuOnLeftSkills = [homeTab, aboutTab, skillsTab]"
    and dst: "openTabs RightGroup menuOnLeftSkills = []"
    and act: "activeTabId LeftGroup menuOnLeftSkills = Some Skills"
    by (simp_all add: l openTabs_def activeTabId_def threeTabs_def initial_def)
  have menu': "contextMenu menuOnRightAbout = Some ?n"
    and src': "openTabs RightGroup menuOnRightAbout = [aboutTab]"
    and dst': "openTabs LeftGroup menuOnRightAbout = [homeTab]"
    and act': "activeTabId RightGroup menuOnRightAbout = Some About"
    by (simp_all add: menuOnRightAbout_state openTabs_def activeTabId_def)
  have ids: "tab_id homeTab = Home" "tab_id aboutTab = About" "tab_id skillsTab = Skills"
    by (simp_all add: homeTab_def aboutTab_def skillsTab_def)
  from splitTab_moves [of Skills RightGroup LeftGroup menuOnLeftSkills ?m]
    menu src dst act ids
  have first: "openTabs RightGroup (splitTab Skills RightGroup LeftGroup menuOnLeftSkills)
        = [skillsTab]
      \<and> activeTabId RightGroup (splitTab Skills RightGroup LeftGroup menuOnLeftSkills)
          = Some Skills
      \<and> openTabs LeftGroup (splitTab Skills RightGroup LeftGroup menuOnLeftSkills)
          = [homeTab, aboutTab]
      \<and> activeTabId LeftGroup (splitTab Skills RightGroup LeftGroup menuOnLeftSkills)
          = Some Home
      \<and> menuButton SplitRight menuOnLeftSkills
          = (splitTab Skills RightGroup LeftGroup menuOnLeftSkills)\<lparr>contextMenu := None\<rparr>
      \<and> openTabs LeftGroup (menuButton SplitRight menuOnLeftSkills) \<noteq> []"
    by (auto simp: Let_def SECTIONS_def skillsTab_def)
  from splitTab_moves [of About LeftGroup RightGroup menuOnRightAbout ?n]
    menu' src' dst' act' ids
  have second: "openTabs RightGroup (splitTab About LeftGroup RightGroup menuOnRightAbout) = []
      \<and> activeTabId RightGroup (splitTab About LeftGroup RightGroup menuOnRightAbout) = None
      \<and> openTabs LeftGroup (splitTab About LeftGroup RightGroup menuOnRightAbout)
          = [homeTab, aboutTab]
      \<and> activeTabId LeftGroup (splitTab About LeftGroup RightGroup menuOnRightAbout)
          = Some About
      \<and> menuButton SplitLeft menuOnRightAbout = menuOnRightAbout"
    by (auto simp: Let_def SECTIONS_def aboutTab_def)
  from menu first second show ?thesis by simp
qed

text \<open>
  Why C4 does not hold as stated. The state with \<open>home\<close>, \<open>about\<close>, \<open>skills\<close> open and
  \<open>skills\<close> active is reached by opening \<open>about\<close> and \<open>skills\<close>. In it \<open>closeTab\<close> makes
  \<open>about\<close>, the left neighbour of \<open>skills\<close>, active, while the move of \<open>skills\<close> to the right
  group, as the function and as the menu entry, makes \<open>home\<close> active. And Split Left on
  the same tab, a move within the left group, removes nothing from the left list.
\<close>

theorem splitTab_not_close_rule:
  "performAll [Open aboutSection LeftGroup, Open skillsSection LeftGroup] = threeTabs
   \<and> activeTabId LeftGroup (closeTab Skills LeftGroup threeTabs) = Some About
   \<and> activeTabId LeftGroup (splitTab Skills RightGroup LeftGroup threeTabs) = Some Home
   \<and> activeTabId LeftGroup (menuButton SplitRight menuOnLeftSkills) = Some Home
   \<and> openTabs LeftGroup (menuButton SplitLeft menuOnLeftSkills)
       = [homeTab, aboutTab, skillsTab]"
  by (simp add: performAll_def openSection_def aboutSection_def skillsSection_def
      menuOnLeftSkills_def tabContextMenu_def menuButton_def showSplit_def
      threeTabs_def initial_def closeTab_def splitTab_def SECTIONS_def Let_def
      openTabs_def activeTabId_def setOpen_def setActive_def orElse_def elemAt_def
      homeTab_def aboutTab_def skillsTab_def)

section \<open>The context menu on a tab of the right group\<close>

text \<open>
  Claim C2 against the code. The state \<open>menuOnRightAbout\<close> is reached from the initial
  one by user actions, and in it each group's active tab is a tab of the group. The menu
  entries Close to the Right and Close Others call \<open>closeToRight\<close> and \<open>closeOthers\<close>
  with the id of the right tab; both write the left cells. Afterwards the active tab of
  the left group is \<open>about\<close>, which is not a tab of the left group, and Close Others has
  emptied the left list.
\<close>

theorem menu_on_right_tab_breaks_active:
  "activeIsOpen LeftGroup menuOnRightAbout
   \<and> activeIsOpen RightGroup menuOnRightAbout
   \<and> leftOpenTabs (menuButton CloseToTheRight menuOnRightAbout) = [homeTab]
   \<and> leftActiveTabId (menuButton CloseToTheRight menuOnRightAbout) = About
   \<and> \<not> activeIsOpen LeftGroup (menuButton CloseToTheRight menuOnRightAbout)
   \<and> leftOpenTabs (menuButton CloseOthers menuOnRightAbout) = []
   \<and> leftActiveTabId (menuButton CloseOthers menuOnRightAbout) = About
   \<and> \<not> activeIsOpen LeftGroup (menuButton CloseOthers menuOnRightAbout)"
  by (simp add: menuOnRightAbout_state menuButton_def closeToRight_def closeOthers_def
      activeIsOpen_def activeTabId_def openTabs_def Let_def initial_def homeTab_def aboutTab_def)

text \<open>
  Claim C6 against the code. \<open>about\<close> is not a tab of the left group in
  \<open>menuOnRightAbout\<close>; \<open>closeToRight\<close> leaves the left list as it is, as its guard
  \<open>idx === -1\<close> intends, and still makes \<open>about\<close> the active tab of the left group: the
  state has changed.
\<close>

theorem closeToRight_absent_changes_active:
  "About \<notin> set (map tab_id (leftOpenTabs menuOnRightAbout))
   \<and> leftActiveTabId menuOnRightAbout = Home
   \<and> leftOpenTabs (closeToRight About menuOnRightAbout) = leftOpenTabs menuOnRightAbout
   \<and> leftActiveTabId (closeToRight About menuOnRightAbout) = About
   \<and> closeToRight About menuOnRightAbout \<noteq> menuOnRightAbout"
proof -
  have "leftActiveTabId (closeToRight About menuOnRightAbout) = About"
    by (simp add: closeToRight_def Let_def)
  moreover have home: "leftActiveTabId menuOnRightAbout = Home"
    by (simp add: menuOnRightAbout_state)
  ultimately have "closeToRight About menuOnRightAbout \<noteq> menuOnRightAbout"
    by (metis SectionId.distinct(1))
  then show ?thesis
    using home
    by (simp add: closeToRight_def Let_def) (simp add: menuOnRightAbout_state homeTab_def)
qed

text \<open>The other two requests of C6 are no-ops: closing a tab that is not in the group's
  list, and a click, which only ever reaches a tab of the list.\<close>

lemma tabClick_outside: "length (openTabs g ws) \<le> index \<Longrightarrow> tabClick g index ws = ws"
  by (simp add: tabClick_def elemAt_def)

section \<open>Content loading\<close>

lemma attempt_fails: "fails r \<Longrightarrow> attempt r = None"
  by (cases r) (simp_all add: fails_def attempt_def)

lemma load_primary_ok:
  "fetch Primary = Response True (Json data) \<Longrightarrow>
   load fetch ws = ([Primary], ws\<lparr>resume := data, resumeLoading := False\<rparr>)"
  by (simp add: load_def attempt_def Let_def)

lemma load_fallback_ok:
  "fails (fetch Primary) \<Longrightarrow> fetch Fallback = Response True (Json data) \<Longrightarrow>
   load fetch ws = ([Primary, Fallback], ws\<lparr>resume := data, resumeLoading := False\<rparr>)"
  by (simp add: load_def attempt_fails) (simp add: attempt_def Let_def)

lemma staticHome_head:
  "take 2 staticHome = [''# Lalit Sharma'', ''Software Engineer'']"
  by (simp add: staticHome_def)

lemma staticHome_not_loading: "staticHome \<noteq> loadingLines"
  by (simp add: staticHome_def loadingLines_def)

text \<open>
  Claim C7. \<open>load\<close> fetches the primary source first; when that fetch fails (a network
  error or a response that is not a success) it fetches the fallback source; when both
  fail the resume is \<open>null\<close> and loading has ended, and the home section then shows the
  static lines, which start with \<open># Lalit Sharma\<close> and \<open>Software Engineer\<close> and are not the
  loading placeholder.
\<close>

theorem load_falls_back_to_static:
  "hd (fst (load fetch ws)) = Primary
   \<and> (fails (fetch Primary) \<longrightarrow> fst (load fetch ws) = [Primary, Fallback])
   \<and> (fails (fetch Primary) \<and> fails (fetch Fallback) \<longrightarrow>
        resume (snd (load fetch ws)) = None
        \<and> \<not> resumeLoading (snd (load fetch ws))
        \<and> renderEditorContent_home (snd (load fetch ws)) = staticHome
        \<and> take 2 (renderEditorContent_home (snd (load fetch ws)))
            = [''# Lalit Sharma'', ''Software Engineer'']
        \<and> renderEditorContent_home (snd (load fetch ws)) \<noteq> loadingLines)"
proof -
  have first: "hd (fst (load fetch ws)) = Primary"
    by (simp add: load_def Let_def split: option.splits)
  have second: "fst (load fetch ws) = [Primary, Fallback]" if "fails (fetch Primary)"
    using that by (simp add: load_def Let_def attempt_fails split: option.splits)
  have both: "load fetch ws = ([Primary, Fallback], ws\<lparr>resume := None, resumeLoading := False\<rparr>)"
    if "fails (fetch Primary)" "fails (fetch Fallback)"
    using that by (simp add: load_def Let_def attempt_fails)
  have shown: "renderEditorContent_home (ws\<lparr>resume := None, resumeLoading := False\<rparr>) = staticHome"
    by (simp add: renderEditorContent_home_def getSectionLines_home_def
        linesFromResume_home_def Let_def)
  from first second both shown staticHome_head staticHome_not_loading
  show ?thesis by simp
qed

text \<open>With every fetch rejected, from the initial state (which shows the placeholder).\<close>

theorem load_falls_back_to_static_witness:
  "fails (offline Primary) \<and> fails (offline Fallback)
   \<and> renderEditorContent_home initial = loadingLines
   \<and> fst (load offline initial) = [Primary, Fallback]
   \<and> resume (snd (load offline initial)) = None
   \<and> \<not> resumeLoading (snd (load offline initial))
   \<and> renderEditorContent_home (snd (load offline initial)) = staticHome
   \<and> take 2 (renderEditorContent_home (snd (load offline initial)))
       = [''# Lalit Sharma'', ''Software Engineer'']"
proof -
  have f: "fails (offline Primary)" "fails (offline Fallback)"
    by (simp_all add: offline_def fails_def)
  have "renderEditorContent_home initial = loadingLines"
    by (simp add: renderEditorContent_home_def initial_def Let_def)
  with load_falls_back_to_static [of offline initial] f show ?thesis
    by (simp add: staticHome_head)
qed

section \<open>Splitter drag\<close>

lemma clampedX_bounds:
  "200 \<le> width \<Longrightarrow> 100 \<le> clampedX rawX width \<and> clampedX rawX width \<le> width - 100"
  by (simp add: clampedX_def)

lemma onMove_resizing:
  "isResizing ws \<Longrightarrow>
   onMove clientX (Some rect) ws =
     ws\<lparr>splitRatio :=
          min (max (clampedX (clientX - rect_left rect
                      - (case dragOffsetPx ws of Some d \<Rightarrow> d | None \<Rightarrow> 0))
                     (rect_width rect) / rect_width rect) 0.2) 0.8\<rparr>"
  by (simp add: onMove_def Let_def)

text \<open>
  Claim C8. During a drag, the pointer's x position relative to the container (less the
  grab offset) is first clamped between 100 and the width less 100, so that in a container
  of at least 200 px each pane is at least 100 px wide; the clamped position is divided
  by the width; and the quotient is clamped to the range from 0.2 to 0.8, in which the
  new split ratio therefore lies.
\<close>

theorem onMove_clamps_twice:
  assumes "isResizing ws" and "0 < rect_width rect"
  shows "let rawX = clientX - rect_left rect
                      - (case dragOffsetPx ws of Some d \<Rightarrow> d | None \<Rightarrow> 0);
             x = clampedX rawX (rect_width rect);
             ws' = onMove clientX (Some rect) ws
         in x = min (max rawX 100) (rect_width rect - 100)
            \<and> (200 \<le> rect_width rect \<longrightarrow>
                 100 \<le> x \<and> 100 \<le> rect_width rect - x)
            \<and> splitRatio ws' = min (max (x / rect_width rect) 0.2) 0.8
            \<and> 0.2 \<le> splitRatio ws' \<and> splitRatio ws' \<le> 0.8
            \<and> ws' = ws\<lparr>splitRatio := splitRatio ws'\<rparr>"
proof -
  define rawX where
    "rawX = clientX - rect_left rect - (case dragOffsetPx ws of Some d \<Rightarrow> d | None \<Rightarrow> 0)"
  define x where "x = clampedX rawX (rect_width rect)"
  define ratio where "ratio = x / rect_width rect"
  have moved: "onMove clientX (Some rect) ws = ws\<lparr>splitRatio := min (max ratio 0.2) 0.8\<rparr>"
    using assms(1) by (simp add: onMove_resizing ratio_def x_def rawX_def)
  have x: "x = min (max rawX 100) (rect_width rect - 100)"
    by (simp add: x_def clampedX_def)
  have panes: "100 \<le> x \<and> 100 \<le> rect_width rect - x" if "200 \<le> rect_width rect"
    using clampedX_bounds [OF that, of rawX] by (simp add: x_def)
  have lower: "0.2 \<le> min (max ratio 0.2) (0.8 :: real)"
    by simp
  have upper: "min (max ratio 0.2) (0.8 :: real) \<le> 0.8"
    by simp
  from x panes lower upper show ?thesis
    unfolding Let_def rawX_def [symmetric] x_def [symmetric] moved ratio_def [symmetric]
    by simp
qed

text \<open>
  The scenario of the description: a pointer 50 px into a container of 1000 px. The
  position is clamped to 100 px, the quotient is 0.1, and the split ratio is 0.2.
\<close>

theorem onMove_clamps_twice_witness:
  "isResizing resizing \<and> 0 < rect_width wideRect
   \<and> clampedX 50 (rect_width wideRect) = 100
   \<and> clampedX 50 (rect_width wideRect) / rect_width wideRect = 0.1
   \<and> splitRatio (onMove 50 (Some wideRect) resizing) = 0.2"
proof -
  have r: "isResizing resizing" and w: "0 < rect_width wideRect"
    by (simp_all add: resizing_def wideRect_def)
  have x: "clampedX 50 (rect_width wideRect) = 100"
    by (simp add: clampedX_def wideRect_def)
  have off: "dragOffsetPx resizing = Some 0" and left: "rect_left wideRect = 0"
    and width: "rect_width wideRect = 1000"
    by (simp_all add: resizing_def wideRect_def)
  from onMove_clamps_twice [OF r w, of 50] x r w
  show ?thesis by (simp add: Let_def off left width)
qed

section \<open>Section catalog search\<close>

text \<open>The table of \<open>toLowerCase\<close> against the codes of the letters.\<close>

lemma table_codes:
  "\<forall>(c, d) \<in> set (zip capitals smalls).
     capitalCode (of_char c) \<and> (of_char d :: nat) = of_char c + 32"
  by (simp add: capitals_def smalls_def capitalCode_def)

lemma capital_codes: "set (map of_char capitals) = {n :: nat. capitalCode n}"
proof -
  have "map of_char capitals = [65 ..< 91] @ [192 ..< 215] @ [216 ..< (223 :: nat)]"
    by (simp add: capitals_def upt_rec_numeral)
  then have "set (map of_char capitals) = {65 ..< 91} \<union> {192 ..< 215} \<union> {216 ..< (223 :: nat)}"
    by (simp only: set_append set_upt Un_assoc)
  also have "\<dots> = {n. capitalCode n}"
    by (auto simp: capitalCode_def)
  finally show ?thesis .
qed

lemma distinct_capitals: "distinct capitals"
  by (simp add: capitals_def)

lemma length_tables: "length capitals = length smalls"
  by (simp add: capitals_def smalls_def)


lemma capital_iff: "capitalCode (of_char c) \<longleftrightarrow> c \<in> set capitals"
proof -
  have "c \<in> set capitals \<longleftrightarrow> (of_char c :: nat) \<in> set (map of_char capitals)"
    by auto
  also have "\<dots> \<longleftrightarrow> capitalCode (of_char c)"
    by (simp only: capital_codes mem_Collect_eq)
  finally show ?thesis by simp
qed

lemma lowerChar_code:
  "(of_char (lowerChar c) :: nat) = (if capitalCode (of_char c) then of_char c + 32 else of_char c)"
proof (cases "c \<in> set capitals")
  case True
  then obtain l where l: "map_of (zip capitals smalls) c = Some l"
    using length_tables by (metis map_of_zip_is_Some)
  then have "(c, l) \<in> set (zip capitals smalls)"
    by (rule map_of_SomeD)
  with table_codes have "(of_char l :: nat) = of_char c + 32"
    by blast
  with True l show ?thesis
    by (simp add: lowerChar_def capital_iff)
next
  case False
  then have "map_of (zip capitals smalls) c = None"
    using length_tables by (metis map_of_zip_is_None)
  with False show ?thesis
    by (simp add: lowerChar_def capital_iff)
qed

lemma lowerChar_eq_iff: "lowerChar c = lowerChar d \<longleftrightarrow> sameLetter c d"
proof -
  have "lowerChar c = lowerChar d
          \<longleftrightarrow> (of_char (lowerChar c) :: nat) = of_char (lowerChar d)"
    by simp
  also have "\<dots> \<longleftrightarrow>
      (of_char c :: nat) = of_char d
      \<or> (capitalCode (of_char c) \<and> (of_char d :: nat) = of_char c + 32)
      \<or> (capitalCode (of_char d) \<and> (of_char c :: nat) = of_char d + 32)"
    unfolding lowerChar_code capitalCode_def by presburger
  finally show ?thesis by (simp add: sameLetter_def)
qed

lemma map_eq_iff_list_all2:
  "map f xs = map f ys \<longleftrightarrow> list_all2 (\<lambda>x y. f x = f y) xs ys"
proof (induction xs arbitrary: ys)
  case Nil
  show ?case by simp
next
  case (Cons x xs)
  show ?case by (cases ys) (simp_all add: Cons.IH)
qed

lemma toLowerCase_eq_iff: "toLowerCase a = toLowerCase b \<longleftrightarrow> list_all2 sameLetter a b"
proof -
  have "sameLetter = (\<lambda>c d. lowerChar c = lowerChar d)"
    by (simp add: fun_eq_iff lowerChar_eq_iff)
  then show ?thesis
    by (simp add: toLowerCase_def map_eq_iff_list_all2)
qed

lemma isWhiteSpace_code:
  "isWhiteSpace c \<longleftrightarrow> (of_char c :: nat) \<in> {9, 10, 11, 12, 13, 32, 160}"
proof -
  have code: "c = k \<longleftrightarrow> (of_char c :: nat) = of_char k" for k
    by simp
  show ?thesis
    unfolding isWhiteSpace_def list.set insert_iff empty_iff code
    by (simp del: of_char_eq_iff)
qed

lemma includes_str_iff: "includes_str s q \<longleftrightarrow> (\<exists>before after. s = before @ q @ after)"
proof (induction s)
  case Nil
  show ?case by simp
next
  case (Cons c cs)
  have "(\<exists>before after. c # cs = before @ q @ after)
          \<longleftrightarrow> prefix q (c # cs) \<or> (\<exists>before after. cs = before @ q @ after)"
  proof
    assume "\<exists>before after. c # cs = before @ q @ after"
    then obtain before after where eq: "c # cs = before @ q @ after" by blast
    show "prefix q (c # cs) \<or> (\<exists>before after. cs = before @ q @ after)"
    proof (cases before)
      case Nil
      with eq show ?thesis by (auto simp: prefix_def)
    next
      case (Cons b bs)
      with eq have "cs = bs @ q @ after" by simp
      then show ?thesis by blast
    qed
  next
    assume "prefix q (c # cs) \<or> (\<exists>before after. cs = before @ q @ after)"
    then show "\<exists>before after. c # cs = before @ q @ after"
    proof
      assume "prefix q (c # cs)"
      then obtain after where "c # cs = [] @ q @ after" by (auto simp: prefix_def)
      then show ?thesis by blast
    next
      assume "\<exists>before after. cs = before @ q @ after"
      then obtain before after where "cs = before @ q @ after" by blast
      then have "c # cs = (c # before) @ q @ after" by simp
      then show ?thesis by blast
    qed
  qed
  with Cons.IH show ?case by simp
qed


lemma includes_ignoring_case:
  "includes_str (toLowerCase hay) (toLowerCase qry) \<longleftrightarrow> containsIgnoringCase hay qry"
proof -
  have "(\<exists>before after. toLowerCase hay = before @ toLowerCase qry @ after)
         \<longleftrightarrow> (\<exists>b m a. hay = b @ m @ a \<and> toLowerCase m = toLowerCase qry)"
  proof
    assume "\<exists>before after. toLowerCase hay = before @ toLowerCase qry @ after"
    then obtain before after where "map lowerChar hay = before @ (map lowerChar qry @ after)"
      by (auto simp: toLowerCase_def)
    then have "\<exists>b r. hay = b @ r \<and> before = map lowerChar b
        \<and> map lowerChar qry @ after = map lowerChar r"
      by (simp only: map_eq_append_conv)
    then obtain b r where hay: "hay = b @ r"
      and r: "map lowerChar r = map lowerChar qry @ after"
      by metis
    from r have "\<exists>m a. r = m @ a \<and> map lowerChar qry = map lowerChar m
        \<and> after = map lowerChar a"
      by (simp only: map_eq_append_conv)
    then obtain m a where "r = m @ a" "map lowerChar m = map lowerChar qry"
      by metis
    with hay show "\<exists>b m a. hay = b @ m @ a \<and> toLowerCase m = toLowerCase qry"
      by (auto simp: toLowerCase_def)
  next
    assume "\<exists>b m a. hay = b @ m @ a \<and> toLowerCase m = toLowerCase qry"
    then obtain b m a where "hay = b @ m @ a" "toLowerCase m = toLowerCase qry" by blast
    then have "toLowerCase hay = toLowerCase b @ toLowerCase qry @ toLowerCase a"
      by (simp add: toLowerCase_def)
    then show "\<exists>before after. toLowerCase hay = before @ toLowerCase qry @ after"
      by blast
  qed
  then show ?thesis
    by (simp add: includes_str_iff containsIgnoringCase_def toLowerCase_eq_iff)
qed

lemma trim_empty: "trim s = [] \<longleftrightarrow> (\<forall>c \<in> set s. isWhiteSpace c)"
proof
  assume "trim s = []"
  then have "dropWhile isWhiteSpace (rev (dropWhile isWhiteSpace s)) = []"
    by (simp add: trim_def)
  then have "\<forall>c \<in> set (dropWhile isWhiteSpace s). isWhiteSpace c"
    by (simp add: dropWhile_eq_Nil_conv)
  moreover have "\<forall>c \<in> set (takeWhile isWhiteSpace s). isWhiteSpace c"
    by (auto dest: set_takeWhileD)
  moreover have "set s = set (takeWhile isWhiteSpace s) \<union> set (dropWhile isWhiteSpace s)"
    by (metis set_append takeWhile_dropWhile_id)
  ultimately show "\<forall>c \<in> set s. isWhiteSpace c" by blast
next
  assume "\<forall>c \<in> set s. isWhiteSpace c"
  then have "dropWhile isWhiteSpace s = []"
    by (simp add: dropWhile_eq_Nil_conv)
  then show "trim s = []" by (simp only: trim_def rev.simps dropWhile.simps)
qed

lemma sections_count: "length SECTIONS = 8"
  by (simp add: SECTIONS_def)

lemma trim_blank: "trim qry = [] \<longleftrightarrow> blank qry"
  by (simp add: trim_empty blank_def isWhiteSpace_code)

lemma sections_order:
  "map sec_id SECTIONS = [Home, About, Experience, Projects, Skills, Education, Training, Contact]"
  by (simp add: SECTIONS_def)

text \<open>
  Claim C9. A blank query (empty, or white space only) yields the whole catalog, its 8
  sections in the order of their registration. Any other query yields, in that order,
  exactly the sections whose title or display path contains the query as a substring,
  letter case ignored. When the search yields nothing, the Enter key in the search box
  leaves the whole state as it is, so no tab is opened.
\<close>

theorem filteredSections_matches:
  "filteredSections qry =
     (if blank qry then SECTIONS
      else filter (\<lambda>s. containsIgnoringCase (sec_title s) qry
                      \<or> containsIgnoringCase (filePath s) qry) SECTIONS)
   \<and> map sec_id SECTIONS
       = [Home, About, Experience, Projects, Skills, Education, Training, Contact]
   \<and> (blank qry \<longrightarrow> length (filteredSections qry) = 8)
   \<and> (filteredSections (query ws) = [] \<longrightarrow> searchKeyDown ''Enter'' ws = ws)"
proof -
  have "filteredSections qry =
          (if blank qry then SECTIONS
           else filter (\<lambda>s. containsIgnoringCase (sec_title s) qry
                           \<or> containsIgnoringCase (filePath s) qry) SECTIONS)"
    by (simp add: filteredSections_def trim_blank Let_def includes_ignoring_case)
  moreover have "length (filteredSections qry) = 8" if "blank qry"
    using that by (simp add: filteredSections_def trim_blank SECTIONS_def)
  moreover have "searchKeyDown ''Enter'' ws = ws" if "filteredSections (query ws) = []"
    using that by (simp add: searchKeyDown_def Let_def)
  ultimately show ?thesis
    using sections_order by blast
qed

text \<open>
  The query \<open>SKILL\<close> finds the section \<open>skills\<close> alone, whose title and path hold it in
  another letter case, and not \<open>home\<close>. A query of a space and a tab is blank and finds all
  8 sections, as the empty query does. The query \<open>xyz-no-match\<close> finds nothing, and Enter
  then changes nothing.
\<close>

theorem filteredSections_matches_witness:
  "\<not> blank ''SKILL''
   \<and> filteredSections ''SKILL'' = [skillsSection]
   \<and> (containsIgnoringCase ''Skills'' ''SKILL'' \<or> containsIgnoringCase ''skills.ts'' ''SKILL'')
   \<and> \<not> containsIgnoringCase ''Home'' ''SKILL''
   \<and> \<not> containsIgnoringCase ''home.md'' ''SKILL''
   \<and> blank [CHR '' '', CHR 0x09]
   \<and> filteredSections [CHR '' '', CHR 0x09] = SECTIONS
   \<and> length (filteredSections [CHR '' '', CHR 0x09]) = 8
   \<and> blank []
   \<and> filteredSections [] = SECTIONS
   \<and> \<not> blank (query searchingNoMatch)
   \<and> filteredSections (query searchingNoMatch) = []
   \<and> searchKeyDown ''Enter'' searchingNoMatch = searchingNoMatch"
proof -
  let ?P = "\<lambda>s. containsIgnoringCase (sec_title s) ''SKILL''
                \<or> containsIgnoringCase (filePath s) ''SKILL''"
  let ?home = "\<lparr>sec_id = Home, sec_title = ''Home'', filePath = ''home.md''\<rparr>"
  have nb: "\<not> blank ''SKILL''"
    by (simp add: blank_def)
  have found: "filteredSections ''SKILL'' = [skillsSection]"
    by (simp add: filteredSections_def trim_def isWhiteSpace_def toLowerCase_def
        lowerChar_eq_iff sameLetter_def capitalCode_def SECTIONS_def skillsSection_def Let_def)
  from filteredSections_matches [of "''SKILL''" initial] nb found
  have eq: "filter ?P SECTIONS = [skillsSection]"
    by (auto simp only: if_False)
  have "skillsSection \<in> set (filter ?P SECTIONS)"
    by (simp only: eq list.set insertI1)
  then have skills: "?P skillsSection"
    by simp
  have "?home \<notin> set (filter ?P SECTIONS)"
    by (simp only: eq) (simp add: skillsSection_def)
  moreover have "?home \<in> set SECTIONS"
    by (simp add: SECTIONS_def)
  ultimately have home: "\<not> ?P ?home"
    by simp
  have b: "blank [CHR '' '', CHR 0x09]" and e: "blank []"
    by (simp_all add: blank_def)
  from filteredSections_matches [of "[CHR '' '', CHR 0x09]" initial] b
  have all: "filteredSections [CHR '' '', CHR 0x09] = SECTIONS
      \<and> length (filteredSections [CHR '' '', CHR 0x09]) = 8"
    by (auto simp only: if_True)
  from filteredSections_matches [of "[]" initial] e
  have none: "filteredSections [] = SECTIONS"
    by (auto simp only: if_True)
  have q: "query searchingNoMatch = ''xyz-no-match''"
    by (simp add: searchingNoMatch_def)
  have nbq: "\<not> blank (query searchingNoMatch)"
    unfolding q by (simp add: blank_def)
  have nomatch: "filteredSections (query searchingNoMatch) = []"
    unfolding q
    by (simp add: filteredSections_def trim_def isWhiteSpace_def toLowerCase_def
        lowerChar_eq_iff sameLetter_def capitalCode_def SECTIONS_def Let_def)
  from filteredSections_matches [of "[]" searchingNoMatch] nomatch
  have enter: "searchKeyDown ''Enter'' searchingNoMatch = searchingNoMatch"
    by simp
  from nb found skills home b all e none nbq nomatch enter show ?thesis
    by (simp add: skillsSection_def sections_count)
qed

lemma filteredSections_md:
  "map sec_id (filteredSections ''.md'') = [Home, About, Education, Training]"
  by (simp add: filteredSections_def trim_def isWhiteSpace_def toLowerCase_def
      lowerChar_eq_iff sameLetter_def capitalCode_def SECTIONS_def Let_def)

text \<open>The no-break space is white space, and a capital letter of Latin-1 is lower-cased.\<close>

lemma filteredSections_nbsp: "filteredSections [CHR 0xA0] = SECTIONS"
  by (simp add: filteredSections_def trim_def isWhiteSpace_def)

lemma toLowerCase_latin1: "toLowerCase [CHR 0xC9, CHR ''t'', CHR 0xD7] = [CHR 0xE9, CHR ''t'', CHR 0xD7]"
  by (simp add: toLowerCase_def lowerChar_def capitals_def smalls_def)

section \<open>Which operations keep the active tab among the open tabs\<close>

text \<open>
  \<open>openSection\<close> and \<open>closeTab\<close> keep \<open>activeIsOpen\<close> (shown above). So do a click on a
  tab, \<open>closeAllTabs\<close>, a drop, and a move offered by the menu. \<open>closeOthers\<close> and
  \<open>closeToRight\<close> keep it when their tab is a tab of the left group.
\<close>

lemma tabClick_keeps_activeIsOpen:
  assumes "activeIsOpen g ws"
  shows "activeIsOpen g (tabClick h index ws)"
proof (cases "index < length (openTabs h ws)")
  case False
  with assms show ?thesis by (simp add: tabClick_def elemAt_def)
next
  case True
  show ?thesis
  proof (cases "g = h")
    case True
    with \<open>index < length (openTabs h ws)\<close> show ?thesis
      by (simp add: tabClick_def elemAt_def activeIsOpen_iff)
  next
    case False
    with assms \<open>index < length (openTabs h ws)\<close> show ?thesis
      by (simp add: tabClick_def elemAt_def activeIsOpen_iff)
  qed
qed

lemma closeAllTabs_activeIsOpen: "activeIsOpen g (closeAllTabs ws)"
  by (cases g)
    (simp_all add: closeAllTabs_def activeIsOpen_def activeTabId_def openTabs_def homeTab_def)

lemma handleTabDrop_mset:
  assumes "handleTabDrop j ws = Some ws'"
  shows "mset (leftOpenTabs ws') = mset (leftOpenTabs ws)"
proof (cases "dragIndex ws")
  case None
  with assms show ?thesis by (simp add: handleTabDrop_def)
next
  case (Some i)
  show ?thesis
  proof (cases "j = i")
    case True
    with Some assms show ?thesis by (auto simp: handleTabDrop_def)
  next
    case False
    have i: "i < length (leftOpenTabs ws)"
    proof (rule ccontr)
      assume "\<not> i < length (leftOpenTabs ws)"
      with Some False have "handleTabDrop j ws = None"
        by (simp add: handleTabDrop_def splice_def)
      with assms show False by simp
    qed
    from False have "i \<noteq> j" by simp
    from handleTabDrop_moves [OF Some i this] assms
    have "leftOpenTabs ws' =
            take (if i < j then j - 1 else j)
              (take i (leftOpenTabs ws) @ drop (Suc i) (leftOpenTabs ws))
            @ leftOpenTabs ws ! i
            # drop (if i < j then j - 1 else j)
                (take i (leftOpenTabs ws) @ drop (Suc i) (leftOpenTabs ws))"
      by auto
    then have "mset (leftOpenTabs ws') =
        add_mset (leftOpenTabs ws ! i)
          (mset (take i (leftOpenTabs ws) @ drop (Suc i) (leftOpenTabs ws)))"
      by (simp only: mset_insert_at)
    with i show ?thesis by (simp only: mset_remove_at)
  qed
qed

lemma handleTabDrop_keeps_activeIsOpen:
  assumes "handleTabDrop j ws = Some ws'" and "activeIsOpen g ws"
  shows "activeIsOpen g ws'"
proof -
  from assms(1) have "set (leftOpenTabs ws') = set (leftOpenTabs ws)"
    by (metis handleTabDrop_mset set_mset_mset)
  moreover from assms(1) have "leftActiveTabId ws' = leftActiveTabId ws"
    "rightOpenTabs ws' = rightOpenTabs ws" "rightActiveTabId ws' = rightActiveTabId ws"
    by (auto simp: handleTabDrop_def splice_def Let_def
        split: option.splits if_splits prod.splits list.splits)
  ultimately show ?thesis
    using assms(2) by (cases g) (simp_all add: activeIsOpen_iff activeTabId_def openTabs_def)
qed

lemma closeOthers_present:
  assumes "tabId \<in> set (map tab_id (leftOpenTabs ws))" and "activeIsOpen g ws"
  shows "activeIsOpen g (closeOthers tabId ws)"
  using assms
  by (cases g) (auto simp: closeOthers_def activeIsOpen_iff activeTabId_def openTabs_def)

lemma closeToRight_present:
  assumes "tabId \<in> set (map tab_id (leftOpenTabs ws))" and "activeIsOpen g ws"
  shows "activeIsOpen g (closeToRight tabId ws)"
proof -
  from assms(1) obtain pre t post where split: "leftOpenTabs ws = pre @ t # post"
    and t: "tab_id t = tabId" and first: "\<forall>p \<in> set pre. tab_id p \<noteq> tabId"
    by (rule first_occurrence)
  have "findIndex (\<lambda>u. tab_id u = tabId) (leftOpenTabs ws) = int (length pre)"
    using first t by (simp add: split findIndex_first)
  then have "closeToRight tabId ws = ws\<lparr>leftOpenTabs := pre @ [t], leftActiveTabId := tabId\<rparr>"
    by (simp add: closeToRight_def Let_def split nat_add_distrib)
  with t assms(2) show ?thesis
    by (cases g) (simp_all add: activeIsOpen_iff activeTabId_def openTabs_def)
qed

lemma first_remaining:
  assumes "filter P xs \<noteq> []"
  shows "(case filter P xs of [] \<Rightarrow> d | r # _ \<Rightarrow> f r) = f (hd (filter P xs))"
    and "hd (filter P xs) \<in> set xs" and "P (hd (filter P xs))"
proof -
  from assms obtain r rs where eq: "filter P xs = r # rs"
    by (cases "filter P xs") simp_all
  then show "(case filter P xs of [] \<Rightarrow> d | r # _ \<Rightarrow> f r) = f (hd (filter P xs))"
    by simp
  have "r \<in> set (filter P xs)" by (simp add: eq)
  then have "r \<in> set xs" and "P r" by simp_all
  then show "hd (filter P xs) \<in> set xs" and "P (hd (filter P xs))" by (simp_all add: eq)
qed

lemma splitTab_keeps_activeIsOpen:
  assumes inv: "activeIsOpen g ws"
    and offered: "distinct (map tab_id (openTabs fromGroup ws))" "2 \<le> length (openTabs fromGroup ws)"
  shows "activeIsOpen g (splitTab tabId direction fromGroup ws)"
proof -
  obtain sct where found: "find (\<lambda>s. sec_id s = tabId) SECTIONS = Some sct"
    using find_section [of tabId] by blast
  have rest: "filter (\<lambda>t. tab_id t \<noteq> tabId) (openTabs fromGroup ws) \<noteq> []"
    using offered by (rule others_remain)
  show ?thesis
  proof (cases direction; cases fromGroup)
    assume "direction = LeftGroup" "fromGroup = LeftGroup"
    with inv found show ?thesis
      by (cases g) (auto simp: splitTab_def Let_def activeIsOpen_iff activeTabId_def openTabs_def)
  next
    assume "direction = RightGroup" "fromGroup = RightGroup"
    with inv found show ?thesis
      by (cases g) (auto simp: splitTab_def Let_def activeIsOpen_iff activeTabId_def openTabs_def)
  next
    assume d: "direction = LeftGroup" "fromGroup = RightGroup"
    with rest have ne: "filter (\<lambda>t. tab_id t \<noteq> tabId) (rightOpenTabs ws) \<noteq> []"
      by (simp add: openTabs_def)
    note fr = first_remaining [OF ne]
    show ?thesis
    proof (cases g)
      case LeftGroup
      then show ?thesis
        using d by (auto simp: splitTab_to_left [OF found] activeIsOpen_iff activeTabId_def
            openTabs_def)
    next
      case RightGroup
      with inv have old: "\<forall>a. rightActiveTabId ws = Some a \<longrightarrow> a \<in> tab_id ` set (rightOpenTabs ws)"
        by (simp add: activeIsOpen_iff activeTabId_def openTabs_def)
      show ?thesis
      proof (cases "rightActiveTabId ws = Some tabId")
        case True
        with RightGroup d fr(2,3) show ?thesis
          by (simp add: splitTab_to_left [OF found] fr(1) activeIsOpen_iff activeTabId_def
              openTabs_def)
      next
        case False
        with RightGroup d old show ?thesis
          by (auto simp: splitTab_to_left [OF found] activeIsOpen_iff activeTabId_def
              openTabs_def)
      qed
    qed
  next
    assume d: "direction = RightGroup" "fromGroup = LeftGroup"
    with rest have ne: "filter (\<lambda>t. tab_id t \<noteq> tabId) (leftOpenTabs ws) \<noteq> []"
      by (simp add: openTabs_def)
    note fr = first_remaining [OF ne]
    show ?thesis
    proof (cases g)
      case RightGroup
      then show ?thesis
        using d by (auto simp: splitTab_to_right [OF found] activeIsOpen_iff activeTabId_def
            openTabs_def)
    next
      case LeftGroup
      with inv have old: "leftActiveTabId ws \<in> tab_id ` set (leftOpenTabs ws)"
        by (simp add: activeIsOpen_iff activeTabId_def openTabs_def)
      show ?thesis
      proof (cases "leftActiveTabId ws = tabId")
        case True
        with LeftGroup d fr(2,3) show ?thesis
          by (simp add: splitTab_to_right [OF found] fr(1) activeIsOpen_iff activeTabId_def
              openTabs_def)
      next
        case False
        with LeftGroup d old show ?thesis
          by (auto simp: splitTab_to_right [OF found] activeIsOpen_iff activeTabId_def
              openTabs_def)
      qed
    qed
  qed
qed

end
